theory Spec2Isabelle
  imports
    Complex_Main
    "HOL-Library.Char_ord"
    "HOL-Library.List_Lexorder"
    "HOL-Library.AList"
begin

section \<open>Strings as Python sees them\<close>

text \<open>
  A Python \<open>str\<close> is modelled as a \<open>string\<close> whose characters are the code points
  below 256. On that range the whitespace characters of \<open>str.strip\<close> and
  \<open>str.split\<close> are 9-13, 28-31, 32, 133 and 160, the line boundaries of
  \<open>str.splitlines\<close> are 10-13, 28-30 and 133, and \<open>str.lower\<close> moves A-Z and the
  accented capitals 192-222 (without 215, the multiplication sign) up by 32.
  Strings compare as lists of code points, which is the order of \<open>sorted\<close>.
\<close>

definition newline :: char where
  "newline = char_of (10 :: nat)"

definition lower_char :: "char \<Rightarrow> char" where
  "lower_char c =
     (let n = (of_char c :: nat)
      in if (65 \<le> n \<and> n \<le> 90) \<or> (192 \<le> n \<and> n \<le> 222 \<and> n \<noteq> 215)
         then char_of (n + 32) else c)"

definition lower :: "string \<Rightarrow> string" where
  "lower s = map lower_char s"

definition is_space :: "char \<Rightarrow> bool" where
  "is_space c = ((of_char c :: nat) \<in> {9, 10, 11, 12, 13, 28, 29, 30, 31, 32, 133, 160})"

definition is_linebreak :: "char \<Rightarrow> bool" where
  "is_linebreak c = ((of_char c :: nat) \<in> {10, 11, 12, 13, 28, 29, 30, 133})"

definition strip :: "string \<Rightarrow> string" where
  "strip s = rev (dropWhile is_space (rev (dropWhile is_space s)))"

definition startswith :: "string \<Rightarrow> string \<Rightarrow> bool" where
  "startswith s pre = (take (length pre) s = pre)"

definition endswith :: "string \<Rightarrow> string \<Rightarrow> bool" where
  "endswith s suf = (length suf \<le> length s \<and> drop (length s - length suf) s = suf)"

text \<open>
  \<open>str.splitlines\<close>: the text is cut at every line boundary, a carriage return
  followed by a line feed is one boundary, and a last line without a boundary is kept
  when it is not empty. The first argument is the line read so far.
\<close>

fun splitlines_from :: "string \<Rightarrow> string \<Rightarrow> string list" where
  "splitlines_from cur [] = (if cur = [] then [] else [cur])"
| "splitlines_from cur [c] =
     (if is_linebreak c then [cur] else [cur @ [c]])"
| "splitlines_from cur (c # d # cs) =
     (if of_char c = (13 :: nat) \<and> of_char d = (10 :: nat) then cur # splitlines_from [] cs
      else if is_linebreak c then cur # splitlines_from [] (d # cs)
      else splitlines_from (cur @ [c]) (d # cs))"

definition splitlines :: "string \<Rightarrow> string list" where
  "splitlines s = splitlines_from [] s"

text \<open>
  \<open>str.split()\<close> with no argument: the tokens between runs of whitespace, never an
  empty token. The first argument is the token read so far.
\<close>

fun split_from :: "string \<Rightarrow> string \<Rightarrow> string list" where
  "split_from cur [] = (if cur = [] then [] else [cur])"
| "split_from cur (c # cs) =
     (if is_space c
      then (if cur = [] then split_from [] cs else cur # split_from [] cs)
      else split_from (cur @ [c]) cs)"

definition split :: "string \<Rightarrow> string list" where
  "split s = split_from [] s"

section \<open>Calls that may raise\<close>

text \<open>
  The outcome of a call whose exception is not caught inside it: the value it returns,
  or the exception it raises, by name.
\<close>

datatype 'a raising = Returns 'a | Raises string

fun map_returns :: "('a \<Rightarrow> 'b) \<Rightarrow> 'a raising \<Rightarrow> 'b raising" where
  "map_returns f (Returns x) = Returns (f x)"
| "map_returns f (Raises e) = Raises e"

section \<open>log\_parser.py: LogParser\<close>

subsection \<open>Data\<close>

text \<open>A row of the resolver's \<open>queries\<close> table, as the SQL query selects it.\<close>

record query_row =
  client :: string
  domain :: string
  timestamp :: int
  status :: int

text \<open>
  A row of the data frame after \<open>parse_logs\<close> has added its columns. \<open>Time\<close> is the
  timestamp read as seconds since the epoch, \<open>Hour\<close> its hour of day and \<open>Date\<close> its
  day number (both in UTC, as \<open>pd.to_datetime(..., unit='s')\<close> gives them).
\<close>

record classified = query_row +
  Time :: int
  Device :: string
  Category :: string
  Hour :: int
  Date :: int
  Status_Description :: string

text \<open>
  The query-log store: the database file may be missing, may lack the
  \<open>queries\<close> table, or the connection may raise; otherwise it holds rows.
\<close>

datatype store = Missing | NoQueriesTable | ConnectionError | Queries "query_row list"

text \<open>
  The fields of a \<open>LogParser\<close> that the parsing path reads. \<open>categories\<close> is a dict
  from category name to a set of domains; its iteration order is its insertion order,
  so it is a list of pairs. \<open>device_map\<close> is only looked up.
\<close>

record log_parser =
  db :: store
  categories :: "(string \<times> string set) list"
  device_map :: "string \<rightharpoonup> string"

subsection \<open>categorize\_domain\<close>

fun categorize_loop :: "(string \<times> string set) list \<Rightarrow> string \<Rightarrow> string" where
  "categorize_loop [] dname = ''uncategorized''"
| "categorize_loop ((category, domains) # rest) dname =
     (if dname \<in> domains then category
      else if (\<exists>cat_domain \<in> domains.
                 endswith dname (''.'' @ cat_domain) \<or> dname = cat_domain) then category
      else categorize_loop rest dname)"

definition categorize_domain :: "log_parser \<Rightarrow> string \<Rightarrow> string" where
  "categorize_domain self dname = categorize_loop (categories self) (strip (lower dname))"

subsection \<open>check\_db\_connection and the SQL query\<close>

definition check_db_connection :: "log_parser \<Rightarrow> bool" where
  "check_db_connection self =
     (case db self of
        Missing \<Rightarrow> False
      | NoQueriesTable \<Rightarrow> False
      | ConnectionError \<Rightarrow> False
      | Queries rows \<Rightarrow> True)"

text \<open>
  \<open>(datetime.now() - timedelta(days=days)).replace(hour=0, minute=0, second=0,
  microsecond=0)\<close>. A naive \<open>datetime\<close> is a reading of the local wall clock, here
  in seconds counted from the reading 1970-01-01 00:00:00; \<open>now\<close> is the reading that
  \<open>datetime.now()\<close> gives. \<open>timedelta\<close> raises \<open>OverflowError\<close> for more than
  999999999 days in either direction, and the subtraction raises it when the result
  leaves the years 1 to 9999, which are the readings from \<open>- 62135596800\<close> to
  \<open>253402300799\<close>. The result is the midnight that begins that day on the wall clock.
  This computation stands before the \<open>try\<close> of \<open>parse_logs\<close>.
\<close>

definition window_start :: "int \<Rightarrow> int \<Rightarrow> int raising" where
  "window_start now days =
     (if days < - 999999999 \<or> 999999999 < days then Raises ''OverflowError''
      else if now - days * 86400 < - 62135596800 \<or> 253402300799 < now - days * 86400
           then Raises ''OverflowError''
      else Returns (((now - days * 86400) div 86400) * 86400))"

text \<open>
  \<open>SELECT ... WHERE timestamp >= ? ORDER BY timestamp DESC\<close>: the rows from the start
  time on, latest first; rows of equal timestamp keep their stored order.
\<close>

definition read_sql :: "store \<Rightarrow> int \<Rightarrow> query_row list" where
  "read_sql s start_time =
     (case s of
        Queries rows \<Rightarrow>
          sort_key (\<lambda>r. - timestamp r) (filter (\<lambda>r. start_time \<le> timestamp r) rows)
      | _ \<Rightarrow> [])"

subsection \<open>The device filter: Series.str.contains\<close>

text \<open>
  \<open>df['Device'].str.contains(device_filter, case=False, na=False)\<close> leaves
  \<open>regex\<close> at its default, so the filter is a regular expression searched with
  \<open>re.IGNORECASE\<close>. Patterns built from ordinary characters and the dot are
  modelled here: an ordinary character matches itself in either case, a dot matches
  every character but the line feed. The characters \<open>^ $ * + ? { } [ ] | ( )\<close> and the
  backslash have further meanings (\<open>re_special\<close> lists the code points of all of
  them, the dot included); for a pattern with one of them the regular-expression engine is a
  parameter, which gives \<open>None\<close> when compiling the pattern raises \<open>re.error\<close> and the
  search predicate otherwise.
\<close>

datatype pat_item = AnyChar | Lit char

definition re_special :: "char \<Rightarrow> bool" where
  "re_special c =
     ((of_char c :: nat) \<in> {46, 94, 36, 42, 43, 63, 123, 125, 91, 93, 92, 124, 40, 41})"

fun re_compile :: "string \<Rightarrow> pat_item list option" where
  "re_compile [] = Some []"
| "re_compile (c # cs) =
     (if c = CHR ''.'' then map_option (Cons AnyChar) (re_compile cs)
      else if re_special c then None
      else map_option (Cons (Lit c)) (re_compile cs))"

fun item_match :: "pat_item \<Rightarrow> char \<Rightarrow> bool" where
  "item_match AnyChar c = (c \<noteq> newline)"
| "item_match (Lit a) c = (lower_char a = lower_char c)"

fun match_here :: "pat_item list \<Rightarrow> string \<Rightarrow> bool" where
  "match_here [] s = True"
| "match_here (p # ps) [] = False"
| "match_here (p # ps) (c # cs) = (item_match p c \<and> match_here ps cs)"

fun re_search :: "pat_item list \<Rightarrow> string \<Rightarrow> bool" where
  "re_search ps [] = match_here ps []"
| "re_search ps (c # cs) = (match_here ps (c # cs) \<or> re_search ps cs)"

type_synonym re_engine = "string \<Rightarrow> (string \<Rightarrow> bool) option"

definition str_contains :: "re_engine \<Rightarrow> string \<Rightarrow> (string \<Rightarrow> bool) option" where
  "str_contains engine pat =
     (case re_compile pat of
        Some ps \<Rightarrow> Some (re_search ps)
      | None \<Rightarrow> engine pat)"

subsection \<open>parse\_logs\<close>

definition status_description :: "int \<Rightarrow> string" where
  "status_description s =
     (if s = 0 then ''Unknown''
      else if s = 1 then ''Blocked (gravity)''
      else if s = 2 then ''Allowed''
      else if s = 3 then ''Blocked (regex)''
      else if s = 4 then ''Blocked (exact)''
      else if s = 5 then ''Blocked (CNAME)''
      else if s = 9 then ''Blocked (gravity, CNAME)''
      else if s = 10 then ''Blocked (regex, CNAME)''
      else if s = 11 then ''Blocked (exact, CNAME)''
      else ''Unknown'')"

definition classify :: "log_parser \<Rightarrow> query_row \<Rightarrow> classified" where
  "classify self r =
     \<lparr> client = client r, domain = domain r, timestamp = timestamp r, status = status r,
       Time = timestamp r,
       Device = (case device_map self (client r) of Some name \<Rightarrow> name | None \<Rightarrow> client r),
       Category = categorize_domain self (domain r),
       Hour = (timestamp r mod 86400) div 3600,
       Date = timestamp r div 86400,
       Status_Description = status_description (status r) \<rparr>"

text \<open>
  What the libraries under \<open>parse_logs\<close> decide. \<open>regex\<close> is the regular-expression
  engine for patterns outside the fragment above. \<open>timestamp\<close> is
  \<open>datetime.timestamp()\<close> of a naive \<open>datetime\<close>: the seconds since the epoch of a
  wall-clock reading in the local time zone, or \<open>None\<close> where the platform raises.
  \<open>to_datetime_ok\<close> tells whether pandas can turn a timestamp into a \<open>Time\<close>, an
  \<open>Hour\<close> and a \<open>Date\<close>; the range depends on its version.
\<close>

record runtime =
  regex :: re_engine
  timestamp_of :: "int \<Rightarrow> int option"
  to_datetime_ok :: "int \<Rightarrow> bool"

text \<open>
  The result is the data frame's rows; \<open>pd.DataFrame()\<close> and every other empty
  frame are the empty list. The start time is computed before the \<open>try\<close>, so its
  \<open>OverflowError\<close> leaves \<open>parse_logs\<close>. Everything after it is inside the \<open>try\<close>,
  whose handler returns an empty frame: \<open>timestamp()\<close> raising, a timestamp that pandas
  cannot convert, a filter that does not compile. A filter of \<open>None\<close> or of the empty
  string is not applied.
\<close>

definition parse_logs ::
  "log_parser \<Rightarrow> runtime \<Rightarrow> int \<Rightarrow> int \<Rightarrow> string option \<Rightarrow> classified list raising" where
  "parse_logs self rt now days device_filter =
     (if \<not> check_db_connection self then Returns []
      else
        case window_start now days of
          Raises e \<Rightarrow> Raises e
        | Returns start_time \<Rightarrow>
            (case timestamp_of rt start_time of
               None \<Rightarrow> Returns []
             | Some start_ts \<Rightarrow>
                 let df = read_sql (db self) start_ts
                 in if df = [] then Returns []
                    else if \<exists>r \<in> set df. \<not> to_datetime_ok rt (timestamp r) then Returns []
                    else
                      let df' = map (classify self) df
                      in (case device_filter of
                            None \<Rightarrow> Returns df'
                          | Some f \<Rightarrow>
                              if f = [] then Returns df'
                              else (case str_contains (regex rt) f of
                                      None \<Rightarrow> Returns []
                                    | Some m \<Rightarrow> Returns (filter (\<lambda>r. m (Device r)) df')))))"

subsection \<open>generate\_summary\<close>

text \<open>
  A Python float is an IEEE 754 double; it is modelled by the rational number it
  stands for. \<open>round_double\<close> rounds a rational to the nearest double, ties to the even
  significand: with \<open>2 ^ e \<le> \<bar>x\<bar> < 2 ^ (e + 1)\<close> the doubles near \<open>x\<close> are the multiples
  of \<open>2 ^ (e - 52)\<close>, and of \<open>2 ^ (- 1074)\<close> below \<open>2 ^ (- 1022)\<close>. Overflow to infinity
  does not arise for the values computed here, which are at most 100. \<open>a / b\<close> on two
  ints gives the correctly rounded quotient, and \<open>x * 100\<close> the correctly rounded
  product with the double 100.
\<close>

fun bit_length :: "nat \<Rightarrow> nat" where
  "bit_length n = (if n = 0 then 0 else Suc (bit_length (n div 2)))"

declare bit_length.simps [simp del]

definition ilog2 :: "rat \<Rightarrow> int" where
  "ilog2 x =
     (if 1 \<le> x then int (bit_length (nat \<lfloor>x\<rfloor>)) - 1
      else - int (bit_length (nat (\<lceil>1 / x\<rceil> - 1))))"

definition pow2 :: "int \<Rightarrow> rat" where
  "pow2 e = power_int 2 e"

definition round_half_even :: "rat \<Rightarrow> int" where
  "round_half_even x =
     (let f = \<lfloor>x\<rfloor>; r = x - of_int f
      in if r < 1 / 2 then f
         else if 1 / 2 < r then f + 1
         else if even f then f else f + 1)"

definition round_double :: "rat \<Rightarrow> rat" where
  "round_double x =
     (if x = 0 then 0
      else
        let a = \<bar>x\<bar>;
            q = pow2 (max (ilog2 a) (- 1022) - 52)
        in sgn x * of_int (round_half_even (a / q)) * q)"

definition float_div :: "int \<Rightarrow> int \<Rightarrow> rat" where
  "float_div a b = round_double (of_int a / of_int b)"

definition float_mul :: "rat \<Rightarrow> rat \<Rightarrow> rat" where
  "float_mul x y = round_double (x * y)"

text \<open>
  The summary is a dict from field name to value. \<open>date_range\<close> holds the least and
  the greatest \<open>Time\<close> (the source renders both with \<open>isoformat\<close>). The percentage is
  the float \<open>blocked / total * 100\<close>. \<open>value_counts\<close> orders by falling count, values
  of equal count in an order of pandas' choosing; here they keep the order of first
  appearance.
\<close>

datatype sval =
    IntV int
  | FloatV rat
  | RangeV int int
  | CountsV "(string \<times> nat) list"

type_synonym summary = "(string \<times> sval) list"

definition nunique :: "string list \<Rightarrow> nat" where
  "nunique xs = length (remdups xs)"

definition value_counts :: "string list \<Rightarrow> (string \<times> nat) list" where
  "value_counts xs =
     sort_key (\<lambda>(k, n). - int n) (map (\<lambda>k. (k, count_list xs k)) (rev (remdups (rev xs))))"

definition generate_summary :: "classified list \<Rightarrow> summary" where
  "generate_summary df =
     (if df = [] then []
      else
        [ (''total_queries'', IntV (int (length df))),
          (''unique_domains'', IntV (int (nunique (map domain df)))),
          (''unique_devices'', IntV (int (nunique (map Device df)))),
          (''date_range'', RangeV (Min (set (map Time df))) (Max (set (map Time df)))),
          (''top_categories'', CountsV (take 10 (value_counts (map Category df)))),
          (''top_domains'', CountsV (take 10 (value_counts (map domain df)))),
          (''device_activity'', CountsV (value_counts (map Device df))),
          (''blocked_queries'', IntV (int (length (filter (\<lambda>r. status r \<noteq> 2) df)))),
          (''blocked_percentage'',
             (if length df > 0
              then FloatV (float_mul
                             (float_div (int (length (filter (\<lambda>r. status r \<noteq> 2) df)))
                                        (int (length df)))
                             100)
              else IntV 0)) ])"


text \<open>\<open>parse_logs\<close> followed by \<open>generate_summary\<close>, as the callers run them.\<close>

definition parse_then_summarize ::
  "log_parser \<Rightarrow> runtime \<Rightarrow> int \<Rightarrow> int \<Rightarrow> string option \<Rightarrow> summary raising" where
  "parse_then_summarize self rt now days device_filter =
     map_returns generate_summary (parse_logs self rt now days device_filter)"

section \<open>domain\_updater.py: DomainUpdater\<close>

subsection \<open>The world outside the program\<close>

text \<open>
  One \<open>session.get\<close> followed by \<open>raise_for_status\<close> either gives the response text,
  raises a \<open>RequestException\<close> (connection error, timeout, HTTP error status), or
  raises something else. The network is a function from the number of requests made so
  far and the URL to that outcome, so a URL can fail twice and then succeed.
\<close>

datatype response = Ok string | RequestException string | OtherException string

text \<open>What the program does to the outside, in order: a request, or a \<open>time.sleep\<close>.\<close>

datatype event = Get string | Sleep nat

text \<open>
  The update metadata that \<open>json.dump\<close> writes. A metadata file on disk holds the
  whole JSON text of a record, or, after a write that failed, only its first characters.
\<close>

record metadata =
  last_update :: string
  results :: "(string \<times> bool) list"
  total_categories :: int
  successful_updates :: int

datatype meta_file = Dumped metadata | Cut metadata nat

text \<open>
  \<open>trace\<close> is the list of events so far, \<open>files\<close> the text files on disk by path and
  \<open>meta_files\<close> the JSON metadata files by path.
\<close>

record world =
  trace :: "event list"
  files :: "string \<rightharpoonup> string"
  meta_files :: "string \<rightharpoonup> meta_file"

text \<open>
  Writing a file with \<open>with open(path, 'w') as f\<close> can go wrong in two ways. \<open>open\<close>
  raises: the file is left as it was. Or \<open>open\<close> has truncated the file and a later
  step raises, an \<open>f.write\<close>, a flush of the buffer, or the close at the end of the
  \<open>with\<close> block: the file is then left holding the first \<open>n\<close> characters of the text
  that the program wrote, for an \<open>n\<close> that the environment decides; the cut may fall
  inside a line, and it may fall after the last character when only the close fails.
  (Characters are counted as the bytes that reach the disk, which is the same for the
  ASCII text of domain names.)
  \<open>mkdir_ok\<close> tells whether \<open>mkdir(parents=True, exist_ok=True)\<close> succeeds on a path.
\<close>

datatype write_fault = NoFault | OpenFault | WriteFault nat

record environment =
  net :: "nat \<Rightarrow> string \<Rightarrow> response"
  disk :: "string \<Rightarrow> write_fault"
  mkdir_ok :: "string \<Rightarrow> bool"
  now_iso :: string

text \<open>The fields of a \<open>DomainUpdater\<close> that its methods read.\<close>

record updater =
  domains_path :: string
  max_retries :: int

fun is_get :: "event \<Rightarrow> bool" where
  "is_get (Get u) = True"
| "is_get (Sleep n) = False"

definition requests_made :: "world \<Rightarrow> nat" where
  "requests_made w = length (filter is_get (trace w))"

definition log_event :: "event \<Rightarrow> world \<Rightarrow> world" where
  "log_event e w = w\<lparr>trace := trace w @ [e]\<rparr>"

subsection \<open>download\_with\_retry\<close>

text \<open>
  What a call gives back: a returned value (\<open>None\<close> when the function falls off its
  end) or a raised exception.
\<close>

datatype outcome = Returned "string option" | Raised string

text \<open>The loop \<open>for attempt in range(retries)\<close>, over the attempts still to come.\<close>

fun retry_loop :: "environment \<Rightarrow> string \<Rightarrow> int \<Rightarrow> nat list \<Rightarrow> world \<Rightarrow> outcome \<times> world" where
  "retry_loop orc url retries [] w = (Returned None, w)"
| "retry_loop orc url retries (attempt # rest) w =
     (case net orc (requests_made w) url of
        Ok text \<Rightarrow> (Returned (Some text), log_event (Get url) w)
      | RequestException e \<Rightarrow>
          if int attempt < retries - 1
          then retry_loop orc url retries rest
                 (log_event (Sleep (2 ^ attempt)) (log_event (Get url) w))
          else (Raised e, log_event (Get url) w)
      | OtherException e \<Rightarrow> (Raised e, log_event (Get url) w))"

definition download_with_retry ::
  "updater \<Rightarrow> environment \<Rightarrow> string \<Rightarrow> int option \<Rightarrow> world \<Rightarrow> outcome \<times> world" where
  "download_with_retry self orc url retries_arg w =
     (let retries = (case retries_arg of None \<Rightarrow> max_retries self | Some r \<Rightarrow> r)
      in retry_loop orc url retries [0 ..< nat retries] w)"

subsection \<open>process\_hosts\_file\<close>

definition process_line :: "string set \<Rightarrow> string \<Rightarrow> string set" where
  "process_line domains raw =
     (let line = strip raw
      in if line = [] \<or> startswith line ''#'' then domains
         else
           let parts = split line
           in if length parts \<ge> 2 \<and> parts ! 0 \<in> {''0.0.0.0'', ''127.0.0.1''}
              then (let dname = parts ! 1
                    in if dname \<noteq> ''localhost'' then insert dname domains else domains)
              else insert line domains)"

definition process_hosts_file :: "string \<Rightarrow> string set" where
  "process_hosts_file content = foldl process_line {} (splitlines content)"

subsection \<open>download\_category\<close>

text \<open>
  The loop over the URLs gives \<open>success\<close> and \<open>all_domains\<close>. A \<open>None\<close> from
  \<open>download_with_retry\<close> makes \<open>process_hosts_file\<close> raise \<open>AttributeError\<close>, which
  the handler catches like every other exception before it goes on to the next URL.
\<close>

fun try_urls ::
  "updater \<Rightarrow> environment \<Rightarrow> string list \<Rightarrow> world \<Rightarrow> (bool \<times> string set) \<times> world" where
  "try_urls self orc [] w = ((False, {}), w)"
| "try_urls self orc (url # urls) w =
     (case download_with_retry self orc url None w of
        (Returned (Some content), w1) \<Rightarrow> ((True, {} \<union> process_hosts_file content), w1)
      | (Returned None, w1) \<Rightarrow> try_urls self orc urls w1
      | (Raised e, w1) \<Rightarrow> try_urls self orc urls w1)"

definition output_file :: "updater \<Rightarrow> string \<Rightarrow> string" where
  "output_file self category = domains_path self @ ''/'' @ category @ ''_domains.txt''"

text \<open>
  The loop \<open>for domain in sorted(all_domains): f.write(f"{domain}\n")\<close> hands the
  lines to the file object one after the other; the second argument is the text handed
  over so far. What reaches the disk is decided when the \<open>with\<close> block is left: all
  of the text, or under a fault its first characters, and then the handler of
  \<open>download_category\<close> logs the failure and returns \<open>False\<close>.
\<close>

fun write_loop :: "string list \<Rightarrow> string \<Rightarrow> string" where
  "write_loop [] buf = buf"
| "write_loop (d # ds) buf = write_loop ds (buf @ d @ [newline])"

definition download_category ::
  "updater \<Rightarrow> environment \<Rightarrow> string \<Rightarrow> string list \<Rightarrow> world \<Rightarrow> bool \<times> world" where
  "download_category self orc category urls w =
     (case try_urls self orc urls w of
        ((success, all_domains), w1) \<Rightarrow>
          if \<not> success then (False, w1)
          else
            let path = output_file self category;
                text = write_loop (sorted_list_of_set all_domains) []
            in (case disk orc path of
                  OpenFault \<Rightarrow> (False, w1)
                | WriteFault n \<Rightarrow> (False, w1\<lparr>files := (files w1)(path \<mapsto> take n text)\<rparr>)
                | NoFault \<Rightarrow> (True, w1\<lparr>files := (files w1)(path \<mapsto> text)\<rparr>)))"

subsection \<open>update\_all\_lists\<close>

text \<open>
  \<open>results[category] = ...\<close> is an update of a dict kept in insertion order;
  \<open>sum(results.values())\<close> counts its true values. The configured sources are a dict
  from category to its URLs, here the list of its items. Creating the directory and
  writing the metadata file stand outside every \<open>try\<close>: when one of them raises, the
  exception leaves \<open>update_all_lists\<close> and no value is returned.
\<close>

fun update_loop ::
  "updater \<Rightarrow> environment \<Rightarrow> (string \<times> string list) list \<Rightarrow> (string \<times> bool) list \<Rightarrow> world
     \<Rightarrow> (string \<times> bool) list \<times> world" where
  "update_loop self orc [] res w = (res, w)"
| "update_loop self orc ((category, urls) # rest) res w =
     (case download_category self orc category urls w of
        (ok, w1) \<Rightarrow> update_loop self orc rest (AList.update category ok res) w1)"

definition sum_values :: "(string \<times> bool) list \<Rightarrow> int" where
  "sum_values res = sum_list (map (\<lambda>(k, v). if v then 1 else 0) res)"

definition metadata_file :: "updater \<Rightarrow> string" where
  "metadata_file self = domains_path self @ ''/update_metadata.json''"

definition update_all_lists ::
  "updater \<Rightarrow> environment \<Rightarrow> (string \<times> string list) list \<Rightarrow> world \<Rightarrow> bool raising \<times> world" where
  "update_all_lists self orc category_sources w =
     (if \<not> mkdir_ok orc (domains_path self) then (Raises ''OSError'', w)
      else
        case update_loop self orc category_sources [] w of
          (res, w1) \<Rightarrow>
            let md = \<lparr> last_update = now_iso orc, results = res,
                       total_categories = int (length category_sources),
                       successful_updates = sum_values res \<rparr>;
                path = metadata_file self
            in (case disk orc path of
                  OpenFault \<Rightarrow> (Raises ''OSError'', w1)
                | WriteFault n \<Rightarrow>
                    (Raises ''OSError'', w1\<lparr>meta_files := (meta_files w1)(path \<mapsto> Cut md n)\<rparr>)
                | NoFault \<Rightarrow>
                    let w2 = w1\<lparr>meta_files := (meta_files w1)(path \<mapsto> Dumped md)\<rparr>;
                        success_count = sum_values res
                    in if success_count = 0 then (Returns False, w2) else (Returns True, w2)))"

section \<open>Statements in the words of the specification\<close>

text \<open>
  The category that wins for an input \<open>x\<close> that is already lowercased and trimmed:
  the first one, in the order of the list, whose domain set holds \<open>x\<close> itself or a
  domain \<open>d\<close> with \<open>x = d\<close> or \<open>x\<close> ending in a dot followed by \<open>d\<close>.
\<close>

definition first_match :: "(string \<times> string set) list \<Rightarrow> string \<Rightarrow> string" where
  "first_match cats x =
     (case find (\<lambda>(category, domains).
                   x \<in> domains \<or> (\<exists>d \<in> domains. x = d \<or> (\<exists>pre. x = pre @ ''.'' @ d))) cats of
        Some (category, domains) \<Rightarrow> category
      | None \<Rightarrow> ''uncategorized'')"

text \<open>
  The events of the attempts \<open>a, ..., n - 1\<close> of a call that is allowed \<open>n\<close> attempts
  and uses them all: every attempt is one request, attempt \<open>i\<close> is followed by a wait
  of \<open>2 ^ i\<close> seconds, and the last attempt by none.
\<close>

definition attempt_events :: "string \<Rightarrow> nat \<Rightarrow> nat \<Rightarrow> event list" where
  "attempt_events url a n = concat (map (\<lambda>i. [Get url, Sleep (2 ^ i)]) [a ..< n - 1]) @ [Get url]"

text \<open>
  A case-insensitive substring: \<open>sub\<close>, lowercased, occurs in \<open>s\<close>, lowercased, at
  some position.
\<close>

fun occurs :: "string \<Rightarrow> string \<Rightarrow> bool" where
  "occurs sub [] = (sub = [])"
| "occurs sub (c # cs) = (take (length sub) (c # cs) = sub \<or> occurs sub cs)"

definition contains_ci :: "string \<Rightarrow> string \<Rightarrow> bool" where
  "contains_ci s sub = occurs (lower sub) (lower s)"

text \<open>A file of lines, each ended by a line feed.\<close>

definition render_lines :: "string list \<Rightarrow> string" where
  "render_lines ls = concat (map (\<lambda>d. d @ [newline]) ls)"

text \<open>
  A pattern of ordinary characters and dots occurs in a string: some stretch of the
  string, as long as the pattern, agrees with it place by place, an ordinary character
  with the same letter in either case, a dot with any character but the line feed.
\<close>

definition pattern_occurs :: "pat_item list \<Rightarrow> string \<Rightarrow> bool" where
  "pattern_occurs ps s =
     (\<exists>pre mid post. s = pre @ mid @ post \<and> list_all2 item_match ps mid)"

text \<open>
  What one line of a fetched text contributes to the domain set: nothing when it is
  blank or, trimmed, starts with \<open>#\<close>; the second token of a blocklist-style line,
  unless that is \<open>localhost\<close>; the trimmed line itself otherwise.
\<close>

definition entry_of_line :: "string \<Rightarrow> string \<Rightarrow> bool" where
  "entry_of_line raw d =
     (let line = strip raw
      in line \<noteq> [] \<and> \<not> startswith line ''#''
         \<and> (if length (split line) \<ge> 2 \<and> split line ! 0 \<in> {''0.0.0.0'', ''127.0.0.1''}
            then d = split line ! 1 \<and> d \<noteq> ''localhost''
            else d = line))"

section \<open>Concrete inputs\<close>

definition example_parser :: log_parser where
  "example_parser =
     \<lparr> db = Queries [],
       categories = [(''ads'', {''doubleclick.net''}),
                     (''social'', {''facebook.com'', ''doubleclick.net''})],
       device_map = [''192.168.1.12'' \<mapsto> ''TV'', ''192.168.1.10'' \<mapsto> ''Dad-Laptop''] \<rparr>"

definition example_updater :: updater where
  "example_updater = \<lparr> domains_path = ''domains'', max_retries = 3 \<rparr>"

definition empty_world :: world where
  "empty_world = \<lparr> trace = [], files = Map.empty, meta_files = Map.empty \<rparr>"

definition flaky_env :: environment where
  "flaky_env =
     \<lparr> net = (\<lambda>n u. if n < 2 then RequestException ''refused'' else Ok ''Ads.Example.COM''),
       disk = (\<lambda>p. NoFault),
       mkdir_ok = (\<lambda>p. True),
       now_iso = ''2024-05-01T03:00:00'' \<rparr>"

definition down_env :: environment where
  "down_env =
     \<lparr> net = (\<lambda>n u. RequestException (if n < 2 then ''refused'' else ''timeout'')),
       disk = (\<lambda>p. NoFault),
       mkdir_ok = (\<lambda>p. True),
       now_iso = ''2024-05-01T03:00:00'' \<rparr>"

definition example_runtime :: runtime where
  "example_runtime =
     \<lparr> regex = (\<lambda>pat. None),
       timestamp_of = (\<lambda>t. Some t),
       to_datetime_ok = (\<lambda>t. - 9223372036 \<le> t \<and> t \<le> 9223372036) \<rparr>"

definition example_rows :: "query_row list" where
  "example_rows =
     [ \<lparr> client = ''192.168.1.12'', domain = ''ads.doubleclick.net'', timestamp = 1714532500, status = 1 \<rparr>,
       \<lparr> client = ''192.168.1.12'', domain = ''facebook.com'', timestamp = 1714532501, status = 2 \<rparr>,
       \<lparr> client = ''192.168.1.10'', domain = ''example.org'', timestamp = 1714532502, status = 0 \<rparr>,
       \<lparr> client = ''192.168.1.10'', domain = ''example.org'', timestamp = 1714532503, status = 2 \<rparr>,
       \<lparr> client = ''192.168.1.77'', domain = ''Tracker.Example'', timestamp = 1714532504, status = 3 \<rparr>,
       \<lparr> client = ''192.168.1.12'', domain = ''ads.doubleclick.net'', timestamp = 1714532505, status = 4 \<rparr>,
       \<lparr> client = ''192.168.1.12'', domain = ''ads.doubleclick.net'', timestamp = 1714532506, status = 5 \<rparr>,
       \<lparr> client = ''192.168.1.10'', domain = ''facebook.com'', timestamp = 1714532507, status = 2 \<rparr>,
       \<lparr> client = ''192.168.1.10'', domain = ''m.facebook.com'', timestamp = 1714532508, status = 9 \<rparr>,
       \<lparr> client = ''192.168.1.12'', domain = ''cdn.example.org'', timestamp = 1714532509, status = 11 \<rparr> ]"

definition example_now :: int where
  "example_now = 1714575600"

definition example_df :: "classified list" where
  "example_df = map (classify example_parser) example_rows"

text \<open>Twenty rows, eleven of them of a status other than 2.\<close>

definition inexact_df :: "classified list" where
  "inexact_df =
     map (classify example_parser)
       (replicate 11 \<lparr> client = ''192.168.1.12'', domain = ''ads.doubleclick.net'',
                       timestamp = 1714532500, status = 1 \<rparr>
        @ replicate 9 \<lparr> client = ''192.168.1.10'', domain = ''example.org'',
                        timestamp = 1714532501, status = 2 \<rparr>)"

definition fallback_env :: environment where
  "fallback_env =
     \<lparr> net = (\<lambda>n u. if u = ''u1'' then RequestException ''refused''
                     else Ok (''0.0.0.0 b.example'' @ [newline] @ ''# comment'' @ [newline]
                              @ ''A.example'')),
       disk = (\<lambda>p. NoFault),
       mkdir_ok = (\<lambda>p. True),
       now_iso = ''2024-05-01T03:00:00'' \<rparr>"



definition mixed_env :: environment where
  "mixed_env =
     \<lparr> net = (\<lambda>n u. Ok (''0.0.0.0 #tracker'' @ [newline] @ ''# note'' @ [newline]
                          @ ''Ads.Example.COM'')),
       disk = (\<lambda>p. NoFault),
       mkdir_ok = (\<lambda>p. True),
       now_iso = ''2024-05-01T03:00:00'' \<rparr>"

definition readonly_env :: environment where
  "readonly_env =
     \<lparr> net = (\<lambda>n u. Ok ''a.example''),
       disk = (\<lambda>p. OpenFault),
       mkdir_ok = (\<lambda>p. True),
       now_iso = ''2024-05-01T03:00:00'' \<rparr>"

definition example_sources :: "(string \<times> string list) list" where
  "example_sources = [(''social'', [''u1'']), (''ads'', [''u1'', ''u2''])]"

section \<open>Properties of categorize\_domain\<close>

lemma endswith_iff: "endswith s suf \<longleftrightarrow> (\<exists>pre. s = pre @ suf)"
proof
  assume "endswith s suf"
  then have "s = take (length s - length suf) s @ suf"
    unfolding endswith_def by (metis append_take_drop_id)
  then show "\<exists>pre. s = pre @ suf" ..
next
  assume "\<exists>pre. s = pre @ suf"
  then show "endswith s suf" unfolding endswith_def by auto
qed

lemma categorize_loop_step:
  "categorize_loop ((c, ds) # rest) x =
     (if x \<in> ds \<or> (\<exists>d \<in> ds. x = d \<or> (\<exists>pre. x = pre @ ''.'' @ d)) then c
      else categorize_loop rest x)"
  by (auto simp: endswith_iff)

lemma categorize_loop_find: "categorize_loop cats x = first_match cats x"
proof (induction cats)
  case Nil
  show ?case by (simp add: first_match_def)
next
  case (Cons p cats)
  obtain c ds where p: "p = (c, ds)" by (cases p)
  show ?case
    unfolding p categorize_loop_step
    using Cons.IH by (simp add: first_match_def del: categorize_loop.simps)
qed

text \<open>
  C1: for every category map and every input domain, \<open>categorize_domain\<close> lowercases
  and trims the input, scans the categories in their order and returns the first one
  whose domain set contains the input, or a domain \<open>d\<close> that the input equals or ends
  with after a dot; when no category matches it returns "uncategorized".
\<close>

theorem categorize_domain_first_match:
  "categorize_domain self dname = first_match (categories self) (strip (lower dname))"
  by (simp add: categorize_domain_def categorize_loop_find)

theorem categorize_domain_first_match_witness:
  "first_match (categories example_parser) (strip (lower '' Stats.G.DoubleClick.NET '')) = ''ads''
   \<and> first_match (categories example_parser) (strip (lower ''Facebook.com'')) = ''social''
   \<and> first_match (categories example_parser) (strip (lower ''notfacebook.com'')) = ''uncategorized''"
proof -
  have "categorize_domain example_parser '' Stats.G.DoubleClick.NET '' = ''ads''"
    by code_simp
  moreover have "categorize_domain example_parser ''Facebook.com'' = ''social''"
    by code_simp
  moreover have "categorize_domain example_parser ''notfacebook.com'' = ''uncategorized''"
    by code_simp
  ultimately show ?thesis
    using categorize_domain_first_match [of example_parser] by simp
qed

section \<open>Properties of download\_with\_retry\<close>

lemma requests_made_log [simp]:
  "requests_made (log_event (Get u) w) = Suc (requests_made w)"
  "requests_made (log_event (Sleep k) w) = requests_made w"
  by (simp_all add: requests_made_def log_event_def)

lemma trace_log [simp]: "trace (log_event e w) = trace w @ [e]"
  by (simp add: log_event_def)

lemma retry_loop_all_fail:
  assumes "\<forall>i. a \<le> i \<and> i < n \<longrightarrow> net orc (requests_made w + (i - a)) url = RequestException (err i)"
    and "a < n" and "retries = int n"
  shows "retry_loop orc url retries [a ..< n] w =
           (Raised (err (n - 1)), w\<lparr>trace := trace w @ attempt_events url a n\<rparr>)"
  using assms
proof (induction "n - a" arbitrary: a w)
  case 0
  then show ?case by simp
next
  case (Suc k)
  have hd: "net orc (requests_made w) url = RequestException (err a)"
    using Suc.prems(1) Suc.prems(2) by (metis add.right_neutral diff_self_eq_0 le_refl)
  have up: "[a ..< n] = a # [Suc a ..< n]"
    using Suc.prems(2) by (simp add: upt_conv_Cons)
  show ?case
  proof (cases "Suc a < n")
    case True
    let ?w = "log_event (Sleep (2 ^ a)) (log_event (Get url) w)"
    have "\<forall>i. Suc a \<le> i \<and> i < n \<longrightarrow>
            net orc (requests_made ?w + (i - Suc a)) url = RequestException (err i)"
    proof (intro allI impI)
      fix i assume i: "Suc a \<le> i \<and> i < n"
      have "requests_made ?w = Suc (requests_made w)" by simp
      with i have "requests_made ?w + (i - Suc a) = requests_made w + (i - a)" by linarith
      with Suc.prems(1) i show "net orc (requests_made ?w + (i - Suc a)) url = RequestException (err i)"
        by (metis Suc_leD)
    qed
    moreover have "k = n - Suc a" using Suc.hyps(2) by simp
    ultimately have IH: "retry_loop orc url retries [Suc a ..< n] ?w =
           (Raised (err (n - 1)), ?w\<lparr>trace := trace ?w @ attempt_events url (Suc a) n\<rparr>)"
      using Suc.hyps(1) True Suc.prems(3) by blast
    have lt: "int a < retries - 1" using True Suc.prems(3) by simp
    have tr: "attempt_events url a n = [Get url, Sleep (2 ^ a)] @ attempt_events url (Suc a) n"
      using True by (simp add: attempt_events_def upt_conv_Cons)
    show ?thesis
      using IH by (simp add: up hd lt tr log_event_def)
  next
    case False
    then have n: "n = Suc a" using Suc.prems(2) by simp
    have nlt: "\<not> int a < retries - 1" using n Suc.prems(3) by simp
    show ?thesis
      by (simp add: up hd nlt n attempt_events_def log_event_def)
  qed
qed

lemma retry_loop_then_ok:
  assumes "\<forall>i. a \<le> i \<and> i < a + k \<longrightarrow> net orc (requests_made w + (i - a)) url = RequestException (err i)"
    and "net orc (requests_made w + k) url = Ok txt"
    and "a + k < n" and "retries = int n"
  shows "retry_loop orc url retries [a ..< n] w =
           (Returned (Some txt), w\<lparr>trace := trace w @ attempt_events url a (Suc (a + k))\<rparr>)"
  using assms
proof (induction k arbitrary: a w)
  case 0
  then have up: "[a ..< n] = a # [Suc a ..< n]" by (simp add: upt_conv_Cons)
  from 0 show ?case by (simp add: up attempt_events_def log_event_def)
next
  case (Suc k)
  have hd: "net orc (requests_made w) url = RequestException (err a)"
    using Suc.prems(1) by (metis add.right_neutral diff_self_eq_0 le_refl less_add_Suc1 add_Suc_right)
  have up: "[a ..< n] = a # [Suc a ..< n]"
    using Suc.prems(3) by (simp add: upt_conv_Cons)
  let ?w = "log_event (Sleep (2 ^ a)) (log_event (Get url) w)"
  have f: "\<forall>i. Suc a \<le> i \<and> i < Suc a + k \<longrightarrow>
            net orc (requests_made ?w + (i - Suc a)) url = RequestException (err i)"
  proof (intro allI impI)
    fix i assume i: "Suc a \<le> i \<and> i < Suc a + k"
    have "requests_made ?w = Suc (requests_made w)" by simp
    with i have "requests_made ?w + (i - Suc a) = requests_made w + (i - a)" by linarith
    moreover from i have "a \<le> i \<and> i < a + Suc k" by simp
    ultimately show "net orc (requests_made ?w + (i - Suc a)) url = RequestException (err i)"
      using Suc.prems(1) by metis
  qed
  have s: "net orc (requests_made ?w + k) url = Ok txt" using Suc.prems(2) by simp
  have "Suc a + k < n" using Suc.prems(3) by simp
  from Suc.IH[OF f s this Suc.prems(4)]
  have IH: "retry_loop orc url retries [Suc a ..< n] ?w =
           (Returned (Some txt), ?w\<lparr>trace := trace ?w @ attempt_events url (Suc a) (Suc (Suc a + k))\<rparr>)" .
  have lt: "int a < retries - 1" using Suc.prems(3,4) by simp
  have tr: "attempt_events url a (Suc (Suc (a + k))) =
              [Get url, Sleep (2 ^ a)] @ attempt_events url (Suc a) (Suc (Suc (a + k)))"
    by (simp add: attempt_events_def upt_conv_Cons)
  show ?case
    using IH by (simp add: up hd lt tr log_event_def)
qed


lemma attempt_events_gets:
  "filter is_get (attempt_events url a n) = replicate (Suc (n - 1 - a)) (Get url)"
proof -
  have "filter is_get (concat (map (\<lambda>i. [Get url, Sleep (2 ^ i)]) xs)) = replicate (length xs) (Get url)" for xs :: "nat list"
    by (induction xs) simp_all
  then show ?thesis by (simp add: attempt_events_def replicate_append_same)
qed

lemma attempt_events_sleeps:
  "filter (\<lambda>e. \<not> is_get e) (attempt_events url a n) = map (\<lambda>i. Sleep (2 ^ i)) [a ..< n - 1]"
proof -
  have "filter (\<lambda>e. \<not> is_get e) (concat (map (\<lambda>i. [Get url, Sleep (2 ^ i)]) xs)) = map (\<lambda>i. Sleep (2 ^ i)) xs" for xs :: "nat list"
    by (induction xs) simp_all
  then show ?thesis by (simp add: attempt_events_def)
qed

lemma download_with_retry_runs:
  assumes r: "retries = (case retries_arg of None \<Rightarrow> max_retries self | Some r \<Rightarrow> r)"
    and pos: "0 < retries"
    and k: "k \<le> nat retries"
    and fails: "\<forall>i<k. net orc (requests_made w + i) url = RequestException (err i)"
  shows "(k = nat retries \<longrightarrow>
            download_with_retry self orc url retries_arg w =
              (Raised (err (k - 1)), w\<lparr>trace := trace w @ attempt_events url 0 k\<rparr>))
       \<and> (k < nat retries \<longrightarrow> net orc (requests_made w + k) url = Ok txt \<longrightarrow>
            download_with_retry self orc url retries_arg w =
              (Returned (Some txt), w\<lparr>trace := trace w @ attempt_events url 0 (Suc k)\<rparr>))"
proof (intro conjI impI)
  assume e: "k = nat retries"
  have "retry_loop orc url retries [0 ..< k] w =
          (Raised (err (k - 1)), w\<lparr>trace := trace w @ attempt_events url 0 k\<rparr>)"
    by (rule retry_loop_all_fail) (use fails pos e in auto)
  then show "download_with_retry self orc url retries_arg w =
              (Raised (err (k - 1)), w\<lparr>trace := trace w @ attempt_events url 0 k\<rparr>)"
    using r e by (simp add: download_with_retry_def Let_def)
next
  assume lt: "k < nat retries" and ok: "net orc (requests_made w + k) url = Ok txt"
  have "retry_loop orc url retries [0 ..< nat retries] w =
          (Returned (Some txt), w\<lparr>trace := trace w @ attempt_events url 0 (Suc (0 + k))\<rparr>)"
    by (rule retry_loop_then_ok) (use fails pos lt ok in auto)
  then show "download_with_retry self orc url retries_arg w =
              (Returned (Some txt), w\<lparr>trace := trace w @ attempt_events url 0 (Suc k)\<rparr>)"
    using r by (simp add: download_with_retry_def Let_def)
qed

text \<open>
  C5: with a positive number of attempts allowed, against a source that fails on every
  attempt \<open>download_with_retry\<close> makes exactly that many requests and then raises the
  last error; against a source that fails \<open>k\<close> times and then succeeds, with \<open>k\<close>
  below the number allowed, it makes exactly \<open>k + 1\<close> requests and returns the text.
  Between attempt \<open>i\<close> and the next it waits \<open>2 ^ i\<close> seconds, and it does not wait
  after its last attempt.
\<close>

theorem download_with_retry_backoff:
  assumes "retries = (case retries_arg of None \<Rightarrow> max_retries self | Some r \<Rightarrow> r)"
    and "0 < retries"
    and "k \<le> nat retries"
    and "\<forall>i<k. net orc (requests_made w + i) url = RequestException (err i)"
  shows "(k = nat retries \<longrightarrow>
            download_with_retry self orc url retries_arg w =
              (Raised (err (k - 1)), w\<lparr>trace := trace w @ attempt_events url 0 k\<rparr>))
       \<and> (k < nat retries \<longrightarrow> net orc (requests_made w + k) url = Ok txt \<longrightarrow>
            download_with_retry self orc url retries_arg w =
              (Returned (Some txt), w\<lparr>trace := trace w @ attempt_events url 0 (Suc k)\<rparr>))
       \<and> (\<forall>n>0. filter is_get (attempt_events url 0 n) = replicate n (Get url)
                \<and> filter (\<lambda>e. \<not> is_get e) (attempt_events url 0 n)
                    = map (\<lambda>i. Sleep (2 ^ i)) [0 ..< n - 1]
                \<and> last (attempt_events url 0 n) = Get url)"
proof -
  have shape: "filter is_get (attempt_events url 0 n) = replicate n (Get url)
                \<and> filter (\<lambda>e. \<not> is_get e) (attempt_events url 0 n)
                    = map (\<lambda>i. Sleep (2 ^ i)) [0 ..< n - 1]
                \<and> last (attempt_events url 0 n) = Get url" if "0 < n" for n
  proof -
    from that have "Suc (n - 1 - 0) = n" by simp
    with attempt_events_gets [of url 0 n]
    have "filter is_get (attempt_events url 0 n) = replicate n (Get url)" by simp
    moreover have "last (attempt_events url 0 n) = Get url"
      by (simp add: attempt_events_def)
    ultimately show ?thesis using attempt_events_sleeps [of url 0 n] by simp
  qed
  from download_with_retry_runs [OF assms, of "txt"] shape show ?thesis by blast
qed

theorem download_with_retry_backoff_witness:
  "download_with_retry example_updater down_env ''u'' None empty_world =
     (Raised ''timeout'',
      empty_world\<lparr>trace := [Get ''u'', Sleep 1, Get ''u'', Sleep 2, Get ''u'']\<rparr>)
   \<and> download_with_retry example_updater flaky_env ''u'' None empty_world =
     (Returned (Some ''Ads.Example.COM''),
      empty_world\<lparr>trace := [Get ''u'', Sleep 1, Get ''u'', Sleep 2, Get ''u'']\<rparr>)"
proof -
  have upt3: "[0 ..< 2] = [0, Suc 0]" "[0 ..< 3 - 1] = [0, Suc 0]" by (simp_all add: upt_rec)
  have a: "\<forall>i<3. net down_env (requests_made empty_world + i) ''u'' =
             RequestException (if i < 2 then ''refused'' else ''timeout'')"
    by (simp add: down_env_def requests_made_def empty_world_def)
  have b: "\<forall>i<2. net flaky_env (requests_made empty_world + i) ''u'' = RequestException ''refused''"
    by (simp add: flaky_env_def requests_made_def empty_world_def)
  have c: "net flaky_env (requests_made empty_world + 2) ''u'' = Ok ''Ads.Example.COM''"
    by (simp add: flaky_env_def requests_made_def empty_world_def)
  have r: "(3::int) = (case None of None \<Rightarrow> max_retries example_updater | Some r \<Rightarrow> r)"
    by (simp add: example_updater_def)
  from download_with_retry_backoff [OF r _ _ a, of "''dummy''"]
  have "download_with_retry example_updater down_env ''u'' None empty_world =
     (Raised ''timeout'', empty_world\<lparr>trace := trace empty_world @ attempt_events ''u'' 0 3\<rparr>)"
    by simp
  moreover
  from download_with_retry_backoff [OF r _ _ b, of "''Ads.Example.COM''"] c
  have "download_with_retry example_updater flaky_env ''u'' None empty_world =
     (Returned (Some ''Ads.Example.COM''), empty_world\<lparr>trace := trace empty_world @ attempt_events ''u'' 0 3\<rparr>)"
    by (simp add: numeral_3_eq_3)
  moreover have "trace empty_world @ attempt_events ''u'' 0 3 = [Get ''u'', Sleep 1, Get ''u'', Sleep 2, Get ''u'']"
    by (simp add: attempt_events_def empty_world_def upt3)
  ultimately show ?thesis by simp
qed

text \<open>
  C10: called with a number of attempts that is zero or negative,
  \<open>download_with_retry\<close> never enters its loop: it makes no request, raises nothing
  and returns \<open>None\<close>.
\<close>

theorem download_with_retry_no_attempts:
  assumes "(case retries_arg of None \<Rightarrow> max_retries self | Some r \<Rightarrow> r) \<le> 0"
  shows "download_with_retry self orc url retries_arg w = (Returned None, w)"
  using assms by (simp add: download_with_retry_def Let_def)


theorem download_with_retry_no_attempts_witness:
  "download_with_retry example_updater flaky_env ''u'' (Some 0) empty_world = (Returned None, empty_world)
   \<and> download_with_retry (example_updater\<lparr>max_retries := - 1\<rparr>) flaky_env ''u'' None empty_world
       = (Returned None, empty_world)"
  using download_with_retry_no_attempts [where retries_arg = "Some 0" and self = example_updater]
        download_with_retry_no_attempts
          [where retries_arg = None and self = "example_updater\<lparr>max_retries := - 1\<rparr>"]
  by simp

section \<open>Properties of parse\_logs and generate\_summary\<close>

lemma bit_length_le: "n < 2 ^ k \<Longrightarrow> bit_length n \<le> k"
proof (induction k arbitrary: n)
  case 0
  then show ?case by (simp add: bit_length.simps)
next
  case (Suc k)
  show ?case
  proof (cases "n = 0")
    case True
    then show ?thesis by (simp add: bit_length.simps)
  next
    case False
    from Suc.prems have "n div 2 < 2 ^ k" by simp
    from Suc.IH [OF this] False show ?thesis by (subst bit_length.simps) simp
  qed
qed

lemma ilog2_le:
  assumes "0 < x" and "x < 2 ^ (Suc k)"
  shows "ilog2 x \<le> int k"
proof (cases "1 \<le> x")
  case True
  have "\<lfloor>x\<rfloor> < 2 ^ Suc k"
    using assms(2) by (metis floor_less_iff of_int_numeral of_int_power)
  moreover have "0 \<le> \<lfloor>x\<rfloor>" using True by simp
  ultimately have "nat \<lfloor>x\<rfloor> < 2 ^ Suc k"
    by (metis nat_less_iff of_nat_numeral of_nat_power)
  from bit_length_le [OF this] True show ?thesis by (simp add: ilog2_def)
next
  case False
  then show ?thesis by (simp add: ilog2_def)
qed

lemma round_half_even_err: "\<bar>of_int (round_half_even y) - y\<bar> \<le> 1 / 2"
proof -
  have "of_int \<lfloor>y\<rfloor> \<le> y" "y < of_int \<lfloor>y\<rfloor> + 1" by linarith+
  then show ?thesis by (auto simp: round_half_even_def Let_def)
qed

lemma pow2_pos: "0 < pow2 e"
  by (simp add: pow2_def)

lemma pow2_mono: "e \<le> e' \<Longrightarrow> pow2 e \<le> pow2 e'"
  unfolding pow2_def by (rule power_int_increasing) simp_all

lemma round_double_err:
  assumes "0 < x" and "x < 2 ^ Suc k"
  shows "\<bar>round_double x - x\<bar> \<le> pow2 (int k - 53)"
proof -
  let ?q = "pow2 (max (ilog2 x) (- 1022) - 52)"
  have qpos: "0 < ?q" by (rule pow2_pos)
  have "max (ilog2 x) (- 1022) - 52 \<le> int k - 52" using ilog2_le [OF assms] by simp
  then have qle: "?q \<le> pow2 (int k - 52)" by (rule pow2_mono)
  have half: "pow2 (int k - 52) / 2 = pow2 (int k - 53)"
  proof -
    have "power_int (2 :: rat) ((int k - 53) + 1) = power_int 2 (int k - 53) * power_int 2 1"
      by (rule power_int_add) simp
    moreover have "(int k - 53) + 1 = int k - 52" by simp
    ultimately show ?thesis unfolding pow2_def by simp
  qed
  have "round_double x - x = (of_int (round_half_even (x / ?q)) - x / ?q) * ?q"
    using assms(1) qpos by (simp add: round_double_def Let_def algebra_simps)
  then have "\<bar>round_double x - x\<bar> = \<bar>of_int (round_half_even (x / ?q)) - x / ?q\<bar> * ?q"
    using qpos by (simp add: abs_mult)
  also have "\<dots> \<le> (1 / 2) * ?q"
    using round_half_even_err [of "x / ?q"] qpos by (intro mult_right_mono) simp_all
  also have "\<dots> \<le> pow2 (int k - 52) / 2" using qle by simp
  finally show ?thesis unfolding half .
qed

lemma round_double_0: "round_double 0 = 0"
  by (simp add: round_double_def)

lemma round_double_nonneg:
  assumes "0 \<le> x"
  shows "0 \<le> round_double x"
proof (cases "x = 0")
  case True
  then show ?thesis by (simp add: round_double_0)
next
  case False
  let ?q = "pow2 (max (ilog2 x) (- 1022) - 52)"
  have qpos: "0 < ?q" by (rule pow2_pos)
  from False assms have x: "0 < x" by simp
  then have "0 \<le> x / ?q" using qpos by simp
  then have "0 \<le> round_half_even (x / ?q)"
    by (auto simp: round_half_even_def Let_def)
  then have "0 \<le> of_int (round_half_even (x / ?q)) * ?q"
    using qpos by (intro mult_nonneg_nonneg) simp_all
  moreover have "round_double x = of_int (round_half_even (x / ?q)) * ?q"
    using x by (simp add: round_double_def Let_def)
  ultimately show ?thesis by simp
qed

lemma percentage_error:
  assumes "b \<le> n" and "0 < n"
  shows "\<bar>float_mul (float_div (int b) (int n)) 100 - of_nat b / of_nat n * 100\<bar> \<le> 1 / 2 ^ 45"
proof -
  let ?q = "of_nat b / of_nat n :: rat"
  let ?d = "round_double ?q"
  have q01: "0 \<le> ?q" "?q \<le> 1" using assms by simp_all
  have p53: "pow2 (- 53) = 1 / 2 ^ 53" and p47: "pow2 (- 47) = 1 / 2 ^ 47"
    by (simp_all add: pow2_def power_int_minus field_simps)
  have derr: "\<bar>?d - ?q\<bar> \<le> 1 / 2 ^ 53"
  proof (cases "?q = 0")
    case True
    show ?thesis unfolding True round_double_0 by simp
  next
    case False
    have lt2: "y < 2 ^ Suc 0" if "y \<le> 1" for y :: rat
      using that by simp
    have gt0: "0 < y" if "0 \<le> y" "y \<noteq> 0" for y :: rat
      using that by simp
    have "0 < ?q" "?q < 2 ^ Suc 0"
      using gt0 [OF q01(1) False] lt2 [OF q01(2)] .
    from round_double_err [OF this] p53 show ?thesis by simp
  qed
  have d0: "0 \<le> ?d" using q01(1) by (rule round_double_nonneg)
  have dle: "?d \<le> 1 + 1 / 2 ^ 53" using derr q01 by linarith
  have perr: "\<bar>round_double (?d * 100) - ?d * 100\<bar> \<le> 1 / 2 ^ 47"
  proof (cases "?d * 100 = 0")
    case True
    show ?thesis unfolding True round_double_0 by simp
  next
    case False
    with d0 have pos: "0 < ?d * 100" by (simp add: less_le)
    have "?d * 100 < 2 ^ Suc 6" using dle by simp
    from round_double_err [OF pos this] p47 show ?thesis by simp
  qed
  have tri: "\<bar>a - q * 100\<bar> \<le> e1 + 100 * e2"
    if "\<bar>a - d * 100\<bar> \<le> e1" "\<bar>d - q\<bar> \<le> e2" for a d q e1 e2 :: rat
    using that by linarith
  have "\<bar>round_double (?d * 100) - ?q * 100\<bar> \<le> 1 / 2 ^ 47 + 100 * (1 / 2 ^ 53)"
    using perr derr by (rule tri)
  also have "\<dots> \<le> 1 / 2 ^ 45" by simp
  finally show ?thesis by (simp add: float_mul_def float_div_def)
qed

lemma seven_of_ten: "float_mul (float_div 7 10) 100 = 70"
  by code_simp

lemma eleven_of_twenty: "float_mul (float_div 11 20) 100 = 55 + 1 / 2 ^ 47"
  by code_simp

lemma summary_keys:
  assumes "df \<noteq> []"
  shows "map_of (generate_summary df) ''total_queries'' = Some (IntV (int (length df)))"
    and "map_of (generate_summary df) ''blocked_queries'' =
           Some (IntV (int (length (filter (\<lambda>r. status r \<noteq> 2) df))))"
    and "map_of (generate_summary df) ''blocked_percentage'' =
           Some (FloatV (float_mul
                   (float_div (int (length (filter (\<lambda>r. status r \<noteq> 2) df))) (int (length df)))
                   100))"
  using assms by (simp_all add: generate_summary_def)

text \<open>
  C7, as the code has it: for every non-empty batch of rows the summary's
  \<open>blocked_queries\<close> is the number of rows whose status is not 2, so a row of status
  0 counts as blocked, and \<open>blocked_percentage\<close> is the float that Python computes
  for that number divided by the number of rows, times 100: the quotient rounded to a
  double, times 100, rounded again. It lies within \<open>2 ^ (- 45)\<close> of the exact
  percentage, and a batch of ten rows with seven of status other than 2 gives 7 and
  exactly 70.0.
\<close>

theorem generate_summary_blocked:
  assumes "df \<noteq> []"
  shows "map_of (generate_summary df) ''blocked_queries'' =
           Some (IntV (int (length (filter (\<lambda>r. status r \<noteq> 2) df))))
       \<and> map_of (generate_summary df) ''blocked_percentage'' =
           Some (FloatV (float_mul
                   (float_div (int (length (filter (\<lambda>r. status r \<noteq> 2) df))) (int (length df)))
                   100))
       \<and> \<bar>float_mul
            (float_div (int (length (filter (\<lambda>r. status r \<noteq> 2) df))) (int (length df))) 100
          - of_nat (length (filter (\<lambda>r. status r \<noteq> 2) df)) / of_nat (length df) * 100\<bar>
           \<le> 1 / 2 ^ 45
       \<and> (length df = 10 \<and> length (filter (\<lambda>r. status r \<noteq> 2) df) = 7 \<longrightarrow>
            map_of (generate_summary df) ''blocked_queries'' = Some (IntV 7)
            \<and> map_of (generate_summary df) ''blocked_percentage'' = Some (FloatV 70))"
proof -
  have n: "0 < length df" using assms by simp
  have b: "length (filter (\<lambda>r. status r \<noteq> 2) df) \<le> length df" by simp
  note k = summary_keys [OF assms]
  have ten: "map_of (generate_summary df) ''blocked_queries'' = Some (IntV 7)
            \<and> map_of (generate_summary df) ''blocked_percentage'' = Some (FloatV 70)"
    if "length df = 10" "length (filter (\<lambda>r. status r \<noteq> 2) df) = 7"
    using k(2,3) unfolding that by (simp add: seven_of_ten)
  from k(2,3) percentage_error [OF b n] ten show ?thesis by blast
qed

theorem generate_summary_blocked_witness:
  "example_df \<noteq> [] \<and> length example_df = 10
   \<and> length (filter (\<lambda>r. status r = 0) example_df) = 1
   \<and> map_of (generate_summary example_df) ''blocked_queries'' = Some (IntV 7)
   \<and> map_of (generate_summary example_df) ''blocked_percentage'' = Some (FloatV 70)"
proof -
  have ne: "example_df \<noteq> []" by (simp add: example_df_def example_rows_def)
  have len: "length example_df = 10" by (simp add: example_df_def example_rows_def)
  have blk: "length (filter (\<lambda>r. status r \<noteq> 2) example_df) = 7"
    by (simp add: example_df_def example_rows_def classify_def)
  have unk: "length (filter (\<lambda>r. status r = 0) example_df) = 1"
    by (simp add: example_df_def example_rows_def classify_def)
  from generate_summary_blocked [OF ne] len blk
  have "map_of (generate_summary example_df) ''blocked_queries'' = Some (IntV 7)
        \<and> map_of (generate_summary example_df) ''blocked_percentage'' = Some (FloatV 70)"
    by blast
  with ne len unk show ?thesis by blast
qed

text \<open>
  The claim C7 as stated, that the percentage equals the blocked count divided by the
  total count times 100, fails for the float that the code computes: with 11 of 20
  rows blocked the quotient 0.55 is not a double, and the code gives
  55.00000000000001, which is \<open>55 + 2 ^ (- 47)\<close>, where the percentage is 55.
\<close>

theorem blocked_percentage_rounding_counterexample:
  "length inexact_df = 20
   \<and> length (filter (\<lambda>r. status r \<noteq> 2) inexact_df) = 11
   \<and> map_of (generate_summary inexact_df) ''blocked_percentage''
       = Some (FloatV (55 + 1 / 2 ^ 47))
   \<and> map_of (generate_summary inexact_df) ''blocked_percentage''
       \<noteq> Some (FloatV (11 / 20 * 100))"
proof -
  have ne: "inexact_df \<noteq> []" by (simp add: inexact_df_def)
  have len: "length inexact_df = 20" by (simp add: inexact_df_def)
  have blk: "length (filter (\<lambda>r. status r \<noteq> 2) inexact_df) = 11"
    by (simp add: inexact_df_def classify_def)
  have p: "map_of (generate_summary inexact_df) ''blocked_percentage''
       = Some (FloatV (55 + 1 / 2 ^ 47))"
    using summary_keys(3) [OF ne] unfolding len blk by (simp add: eleven_of_twenty)
  have "(55 + 1 / 2 ^ 47 :: rat) \<noteq> 11 / 20 * 100" by simp
  with len blk p show ?thesis by simp
qed







lemma re_compile_literal:
  "\<forall>c \<in> set f. \<not> re_special c \<Longrightarrow> re_compile f = Some (map Lit f)"
proof (induction f)
  case Nil
  show ?case by simp
next
  case (Cons c f)
  have dot: "re_special (CHR ''.'')" by (simp add: re_special_def)
  with Cons.prems have "c \<noteq> CHR ''.''" by auto
  with Cons show ?case by simp
qed

lemma match_here_literal:
  "match_here (map Lit f) s \<longleftrightarrow> take (length f) (lower s) = lower f"
proof (induction f arbitrary: s)
  case Nil
  show ?case by (simp add: lower_def)
next
  case (Cons c f)
  show ?case
  proof (cases s)
    case Nil
    then show ?thesis by (simp add: lower_def)
  next
    case (Cons d ds)
    with Cons.IH [of ds] show ?thesis by (auto simp: lower_def)
  qed
qed

lemma re_search_literal: "re_search (map Lit f) s \<longleftrightarrow> contains_ci s f"
proof (induction s)
  case Nil
  show ?case by (cases f) (simp_all add: contains_ci_def lower_def)
next
  case (Cons c cs)
  have "length (lower f) = length f" by (simp add: lower_def)
  then have "match_here (map Lit f) (c # cs)
       \<longleftrightarrow> take (length (lower f)) (lower (c # cs)) = lower f"
    by (simp add: match_here_literal)
  with Cons.IH show ?case by (simp add: contains_ci_def lower_def)
qed

lemma occurs_iff: "occurs sub s \<longleftrightarrow> (\<exists>pre post. s = pre @ sub @ post)"
proof (induction s)
  case Nil
  show ?case by simp
next
  case (Cons c cs)
  show ?case
  proof
    assume "occurs sub (c # cs)"
    then consider "take (length sub) (c # cs) = sub" | "occurs sub cs" by auto
    then show "\<exists>pre post. c # cs = pre @ sub @ post"
    proof cases
      case 1
      then have "c # cs = [] @ sub @ drop (length sub) (c # cs)"
        by (metis append_Nil append_take_drop_id)
      then show ?thesis by blast
    next
      case 2
      with Cons.IH obtain pre post where "cs = pre @ sub @ post" by blast
      then have "c # cs = (c # pre) @ sub @ post" by simp
      then show ?thesis by blast
    qed
  next
    assume "\<exists>pre post. c # cs = pre @ sub @ post"
    then obtain pre post where e: "c # cs = pre @ sub @ post" by blast
    show "occurs sub (c # cs)"
    proof (cases pre)
      case Nil
      with e have "take (length sub) (c # cs) = sub" by simp
      then show ?thesis by simp
    next
      case (Cons p ps)
      with e have "cs = ps @ sub @ post" by simp
      with Cons.IH have "occurs sub cs" by blast
      then show ?thesis by simp
    qed
  qed
qed

lemma contains_ci_iff:
  "contains_ci s sub \<longleftrightarrow> (\<exists>pre post. lower s = pre @ lower sub @ post)"
  by (simp add: contains_ci_def occurs_iff)

lemma match_here_pattern:
  "match_here ps s \<longleftrightarrow> (\<exists>mid post. s = mid @ post \<and> list_all2 item_match ps mid)"
proof (induction ps s rule: match_here.induct)
  case (1 s)
  show ?case by simp
next
  case (2 p ps)
  show ?case by simp
next
  case (3 p ps c cs)
  show ?case
  proof
    assume "match_here (p # ps) (c # cs)"
    then have "item_match p c" "match_here ps cs" by simp_all
    with 3 obtain mid post where "cs = mid @ post" "list_all2 item_match ps mid" by blast
    with \<open>item_match p c\<close> have "c # cs = (c # mid) @ post \<and> list_all2 item_match (p # ps) (c # mid)"
      by simp
    then show "\<exists>mid post. c # cs = mid @ post \<and> list_all2 item_match (p # ps) mid" by blast
  next
    assume "\<exists>mid post. c # cs = mid @ post \<and> list_all2 item_match (p # ps) mid"
    then obtain mid post where m: "c # cs = mid @ post" "list_all2 item_match (p # ps) mid"
      by blast
    from m(2) obtain d mid' where mid: "mid = d # mid'" "item_match p d" "list_all2 item_match ps mid'"
      by (auto simp: list_all2_Cons1)
    with m(1) have "d = c" "cs = mid' @ post" by simp_all
    with mid 3 show "match_here (p # ps) (c # cs)" by auto
  qed
qed

lemma re_search_pattern: "re_search ps s \<longleftrightarrow> pattern_occurs ps s"
proof (induction s)
  case Nil
  show ?case by (cases ps) (simp_all add: pattern_occurs_def)
next
  case (Cons c cs)
  show ?case
  proof
    assume "re_search ps (c # cs)"
    then consider "match_here ps (c # cs)" | "re_search ps cs" by auto
    then show "pattern_occurs ps (c # cs)"
    proof cases
      case 1
      then obtain mid post where "c # cs = [] @ mid @ post" "list_all2 item_match ps mid"
        by (auto simp: match_here_pattern)
      then show ?thesis unfolding pattern_occurs_def by blast
    next
      case 2
      with Cons.IH obtain pre mid post where "cs = pre @ mid @ post" "list_all2 item_match ps mid"
        by (auto simp: pattern_occurs_def)
      then have "c # cs = (c # pre) @ mid @ post \<and> list_all2 item_match ps mid" by simp
      then show ?thesis unfolding pattern_occurs_def by blast
    qed
  next
    assume "pattern_occurs ps (c # cs)"
    then obtain pre mid post where m: "c # cs = pre @ mid @ post" "list_all2 item_match ps mid"
      by (auto simp: pattern_occurs_def)
    show "re_search ps (c # cs)"
    proof (cases pre)
      case Nil
      with m have "match_here ps (c # cs)" by (auto simp: match_here_pattern)
      then show ?thesis by simp
    next
      case (Cons p pre')
      with m have "cs = pre' @ mid @ post" by simp
      with m(2) have "pattern_occurs ps cs" unfolding pattern_occurs_def by blast
      with Cons.IH have "re_search ps cs" by simp
      then show ?thesis by simp
    qed
  qed
qed

lemma pattern_occurs_dot: "pattern_occurs [AnyChar] s \<longleftrightarrow> (\<exists>c \<in> set s. c \<noteq> newline)"
proof
  assume "pattern_occurs [AnyChar] s"
  then obtain pre mid post where m: "s = pre @ mid @ post" "list_all2 item_match [AnyChar] mid"
    by (auto simp: pattern_occurs_def)
  from m(2) obtain c where "mid = [c]" "c \<noteq> newline"
    by (auto simp: list_all2_Cons1)
  with m(1) show "\<exists>c \<in> set s. c \<noteq> newline" by auto
next
  assume "\<exists>c \<in> set s. c \<noteq> newline"
  then obtain c where c: "c \<in> set s" "c \<noteq> newline" by blast
  then obtain pre post where "s = pre @ c # post" by (auto simp: in_set_conv_decomp)
  then have "s = pre @ [c] @ post \<and> list_all2 item_match [AnyChar] [c]" using c(2) by simp
  then show "pattern_occurs [AnyChar] s" unfolding pattern_occurs_def by blast
qed

lemma parse_logs_filtered:
  assumes "f \<noteq> []" and "str_contains (regex rt) f = Some m"
  shows "parse_logs self rt now days (Some f) =
           map_returns (filter (\<lambda>r. m (Device r))) (parse_logs self rt now days None)"
  using assms
  by (simp add: parse_logs_def Let_def split: raising.splits option.splits)

text \<open>
  C9, as the code has it: the device filter is searched for as a regular expression,
  without regard to case. For every non-empty filter without a character that is
  special in a regular expression, \<open>parse_logs\<close> keeps exactly the rows whose device
  name contains the filter as a case-insensitive substring, and the summary is computed
  from those rows alone. For a non-empty filter of ordinary characters and dots it
  keeps exactly the rows in whose device name the pattern occurs, a dot standing for
  any character but the line feed; so the filter \<open>.\<close> keeps exactly the rows whose
  device name has a character other than the line feed.
\<close>

theorem device_filter_literal:
  "(f \<noteq> [] \<and> (\<forall>c \<in> set f. \<not> re_special c) \<longrightarrow>
      parse_logs self rt now days (Some f) =
        map_returns (filter (\<lambda>r. \<exists>pre post. lower (Device r) = pre @ lower f @ post))
          (parse_logs self rt now days None)
      \<and> parse_then_summarize self rt now days (Some f) =
        map_returns
          (\<lambda>df. generate_summary
                  (filter (\<lambda>r. \<exists>pre post. lower (Device r) = pre @ lower f @ post) df))
          (parse_logs self rt now days None))
   \<and> (f \<noteq> [] \<and> re_compile f = Some ps \<longrightarrow>
      parse_logs self rt now days (Some f) =
        map_returns (filter (\<lambda>r. pattern_occurs ps (Device r)))
          (parse_logs self rt now days None))
   \<and> parse_logs self rt now days (Some ''.'') =
        map_returns (filter (\<lambda>r. \<exists>c \<in> set (Device r). c \<noteq> newline))
          (parse_logs self rt now days None)"
proof (intro conjI impI)
  assume a: "f \<noteq> [] \<and> (\<forall>c \<in> set f. \<not> re_special c)"
  then have c: "str_contains (regex rt) f = Some (re_search (map Lit f))"
    by (simp add: str_contains_def re_compile_literal)
  from parse_logs_filtered [OF conjunct1 [OF a] c]
  show l: "parse_logs self rt now days (Some f) =
        map_returns (filter (\<lambda>r. \<exists>pre post. lower (Device r) = pre @ lower f @ post))
          (parse_logs self rt now days None)"
    by (simp add: re_search_literal contains_ci_iff)
  show "parse_then_summarize self rt now days (Some f) =
        map_returns
          (\<lambda>df. generate_summary
                  (filter (\<lambda>r. \<exists>pre post. lower (Device r) = pre @ lower f @ post) df))
          (parse_logs self rt now days None)"
    unfolding parse_then_summarize_def l
    by (cases "parse_logs self rt now days None") simp_all
next
  assume a: "f \<noteq> [] \<and> re_compile f = Some ps"
  then have c: "str_contains (regex rt) f = Some (re_search ps)"
    by (simp add: str_contains_def)
  from parse_logs_filtered [OF conjunct1 [OF a] c]
  show "parse_logs self rt now days (Some f) =
        map_returns (filter (\<lambda>r. pattern_occurs ps (Device r)))
          (parse_logs self rt now days None)"
    by (simp add: re_search_pattern)
next
  have c: "str_contains (regex rt) ''.'' = Some (re_search [AnyChar])"
    by (simp add: str_contains_def)
  have n: "''.'' \<noteq> []" by simp
  from parse_logs_filtered [OF n c]
  show "parse_logs self rt now days (Some ''.'') =
        map_returns (filter (\<lambda>r. \<exists>c \<in> set (Device r). c \<noteq> newline))
          (parse_logs self rt now days None)"
    by (simp add: re_search_pattern pattern_occurs_dot)
qed

theorem device_filter_literal_witness:
  "map_returns (map domain)
     (parse_logs (example_parser\<lparr>db := Queries example_rows\<rparr>) example_runtime example_now 1
        (Some ''LAPTOP'')) =
     Returns [''m.facebook.com'', ''facebook.com'', ''example.org'', ''example.org'']
   \<and> map_returns (\<lambda>df. map domain
          (filter (\<lambda>r. \<exists>pre post. lower (Device r) = pre @ lower ''LAPTOP'' @ post) df))
        (parse_logs (example_parser\<lparr>db := Queries example_rows\<rparr>) example_runtime example_now 1
           None)
       = Returns [''m.facebook.com'', ''facebook.com'', ''example.org'', ''example.org'']"
proof -
  let ?p = "parse_logs (example_parser\<lparr>db := Queries example_rows\<rparr>) example_runtime example_now 1"
  have a: "''LAPTOP'' \<noteq> [] \<and> (\<forall>c \<in> set ''LAPTOP''. \<not> re_special c)"
    by (simp add: re_special_def)
  have c: "map_returns (map domain) (?p (Some ''LAPTOP'')) =
     Returns [''m.facebook.com'', ''facebook.com'', ''example.org'', ''example.org'']"
    by code_simp
  note T = device_filter_literal
             [of "''LAPTOP''" "example_parser\<lparr>db := Queries example_rows\<rparr>" example_runtime
                 example_now 1, THEN conjunct1, rule_format, OF a, THEN conjunct1]
  have "map_returns (map domain) (?p (Some ''LAPTOP'')) =
        map_returns (\<lambda>df. map domain
          (filter (\<lambda>r. \<exists>pre post. lower (Device r) = pre @ lower ''LAPTOP'' @ post) df)) (?p None)"
    unfolding T by (cases "?p None") simp_all
  with c show ?thesis by simp
qed

text \<open>
  The claim C9 as stated, for every non-empty filter string, fails: the filter is a
  regular expression, so the filter \<open>.\<close> keeps a row whose device name is \<open>TV\<close>,
  which does not contain a dot.
\<close>

theorem device_filter_dot_counterexample:
  "map_returns (map Device)
     (parse_logs (example_parser\<lparr>db := Queries (take 1 example_rows)\<rparr>)
        example_runtime example_now 1 (Some ''.'')) = Returns [''TV'']
   \<and> \<not> contains_ci ''TV'' ''.''"
  by code_simp

section \<open>Properties of download\_category\<close>

lemma log_event_frame [simp]:
  "files (log_event e w) = files w" "meta_files (log_event e w) = meta_files w"
  by (simp_all add: log_event_def)

lemma retry_loop_frame:
  "retry_loop orc url retries atts w = (out, w') \<Longrightarrow>
   files w' = files w \<and> meta_files w' = meta_files w
   \<and> (\<exists>evs. trace w' = trace w @ evs \<and> (\<forall>u. Get u \<in> set evs \<longrightarrow> u = url))"
proof (induction atts arbitrary: w)
  case Nil
  then show ?case by simp
next
  case (Cons a atts)
  show ?case
  proof (cases "net orc (requests_made w) url")
    case (Ok body)
    with Cons.prems show ?thesis by auto
  next
    case (OtherException e)
    with Cons.prems show ?thesis by auto
  next
    case (RequestException e)
    show ?thesis
    proof (cases "int a < retries - 1")
      case False
      with RequestException Cons.prems show ?thesis by auto
    next
      case True
      let ?w = "log_event (Sleep (2 ^ a)) (log_event (Get url) w)"
      from True RequestException Cons.prems
      have "retry_loop orc url retries atts ?w = (out, w')" by simp
      from Cons.IH [OF this] obtain evs where
        f: "files w' = files w" "meta_files w' = meta_files w"
        and t: "trace w' = trace ?w @ evs" "\<forall>u. Get u \<in> set evs \<longrightarrow> u = url"
        by auto
      have "trace w' = trace w @ ([Get url, Sleep (2 ^ a)] @ evs)" using t(1) by simp
      moreover have "\<forall>u. Get u \<in> set ([Get url, Sleep (2 ^ a)] @ evs) \<longrightarrow> u = url"
        using t(2) by auto
      ultimately show ?thesis using f by blast
    qed
  qed
qed

lemma download_with_retry_frame:
  "download_with_retry self orc url r w = (out, w') \<Longrightarrow>
   files w' = files w \<and> meta_files w' = meta_files w
   \<and> (\<exists>evs. trace w' = trace w @ evs \<and> (\<forall>u. Get u \<in> set evs \<longrightarrow> u = url))"
  unfolding download_with_retry_def Let_def by (rule retry_loop_frame)

lemma try_urls_frame:
  "try_urls self orc urls w = (r, w') \<Longrightarrow>
   files w' = files w \<and> meta_files w' = meta_files w
   \<and> (\<exists>evs. trace w' = trace w @ evs \<and> (\<forall>u. Get u \<in> set evs \<longrightarrow> u \<in> set urls))"
proof (induction urls arbitrary: w)
  case Nil
  then show ?case by auto
next
  case (Cons url urls)
  obtain out w1 where d: "download_with_retry self orc url None w = (out, w1)"
    by (cases "download_with_retry self orc url None w")
  from download_with_retry_frame [OF d] obtain evs1 where
    f1: "files w1 = files w" "meta_files w1 = meta_files w"
    and t1: "trace w1 = trace w @ evs1" "\<forall>u. Get u \<in> set evs1 \<longrightarrow> u = url"
    by auto
  show ?case
  proof (cases "\<exists>content. out = Returned (Some content)")
    case True
    then obtain content where "out = Returned (Some content)" by blast
    with d Cons.prems have "w' = w1" by simp
    with f1 t1 show ?thesis by auto
  next
    case False
    with d Cons.prems have "try_urls self orc urls w1 = (r, w')"
      by (cases out) (auto split: option.splits)
    from Cons.IH [OF this] obtain evs2 where
      f2: "files w' = files w1" "meta_files w' = meta_files w1"
      and t2: "trace w' = trace w1 @ evs2" "\<forall>u. Get u \<in> set evs2 \<longrightarrow> u \<in> set urls"
      by auto
    have "trace w' = trace w @ (evs1 @ evs2)" using t1(1) t2(1) by simp
    moreover have "\<forall>u. Get u \<in> set (evs1 @ evs2) \<longrightarrow> u \<in> set (url # urls)"
      using t1(2) t2(2) by auto
    ultimately show ?thesis using f1 f2 by (metis)
  qed
qed

lemma try_urls_skip_failed:
  "try_urls self orc pre w = ((False, ds0), w1) \<Longrightarrow>
   try_urls self orc (pre @ rest) w = try_urls self orc rest w1"
proof (induction pre arbitrary: w)
  case Nil
  then show ?case by simp
next
  case (Cons url pre)
  obtain out w0 where d: "download_with_retry self orc url None w = (out, w0)"
    by (cases "download_with_retry self orc url None w")
  show ?case
  proof (cases out)
    case (Returned t)
    show ?thesis
    proof (cases t)
      case None
      with Returned d Cons.prems have "try_urls self orc pre w0 = ((False, ds0), w1)" by simp
      from Cons.IH [OF this] show ?thesis using None Returned d by simp
    next
      case (Some content)
      with Returned d Cons.prems show ?thesis by simp
    qed
  next
    case (Raised e)
    with d Cons.prems have "try_urls self orc pre w0 = ((False, ds0), w1)" by simp
    from Cons.IH [OF this] show ?thesis using Raised d by simp
  qed
qed

lemma try_urls_success_content:
  "try_urls self orc urls w = ((True, ds), w1) \<Longrightarrow> \<exists>content. ds = process_hosts_file content"
proof (induction urls arbitrary: w)
  case Nil
  then show ?case by simp
next
  case (Cons url urls)
  obtain out w0 where d: "download_with_retry self orc url None w = (out, w0)"
    by (cases "download_with_retry self orc url None w")
  show ?case
  proof (cases out)
    case (Returned t)
    show ?thesis
    proof (cases t)
      case None
      with Returned d Cons.prems have "try_urls self orc urls w0 = ((True, ds), w1)" by simp
      from Cons.IH [OF this] show ?thesis .
    next
      case (Some content)
      with Returned d Cons.prems show ?thesis by auto
    qed
  next
    case (Raised e)
    with d Cons.prems have "try_urls self orc urls w0 = ((True, ds), w1)" by simp
    from Cons.IH [OF this] show ?thesis .
  qed
qed

lemma splitlines_from_chars:
  "l \<in> set (splitlines_from cur s) \<Longrightarrow> c \<in> set l \<Longrightarrow>
   c \<in> set cur \<or> (c \<in> set s \<and> \<not> is_linebreak c)"
proof (induction cur s rule: splitlines_from.induct)
  case (1 cur)
  then show ?case by (auto split: if_splits)
next
  case (2 cur a)
  then show ?case by (auto split: if_splits)
next
  case (3 cur a b cs)
  show ?case
  proof (cases "of_char a = (13 :: nat) \<and> of_char b = (10 :: nat)")
    case True
    with 3 show ?thesis by auto
  next
    case False
    show ?thesis
    proof (cases "is_linebreak a")
      case True
      with False 3 show ?thesis by auto
    next
      case nb: False
      with False 3 show ?thesis by auto
    qed
  qed
qed

lemma splitlines_no_linebreak:
  "l \<in> set (splitlines s) \<Longrightarrow> c \<in> set l \<Longrightarrow> \<not> is_linebreak c"
  using splitlines_from_chars [of l "[]" s c] by (simp add: splitlines_def)

lemma is_linebreak_newline: "is_linebreak newline"
  by (simp add: is_linebreak_def newline_def)

lemma strip_subset: "set (strip s) \<subseteq> set s"
proof -
  have "set (dropWhile P xs) \<subseteq> set xs" for P and xs :: string
    by (meson set_dropWhileD subsetI)
  then show ?thesis unfolding strip_def by (metis set_rev subset_trans)
qed

lemma split_from_tokens:
  "t \<in> set (split_from cur s) \<Longrightarrow> t \<noteq> [] \<and> set t \<subseteq> set cur \<union> set s"
  by (induction cur s rule: split_from.induct) (auto split: if_splits)

lemma split_tokens: "t \<in> set (split s) \<Longrightarrow> t \<noteq> [] \<and> set t \<subseteq> set s"
  using split_from_tokens [of t "[]" s] by (simp add: split_def)

lemma process_line_union: "process_line A raw = A \<union> process_line {} raw"
  unfolding process_line_def Let_def by (simp split: if_splits) blast

lemma foldl_process_line:
  "foldl process_line A ls = A \<union> (\<Union>raw \<in> set ls. process_line {} raw)"
proof (induction ls arbitrary: A)
  case Nil
  show ?case by simp
next
  case (Cons raw ls)
  show ?case
    unfolding foldl_Cons Cons.IH [of "process_line A raw"]
    using process_line_union [of A raw] by auto
qed

lemma process_hosts_file_mem:
  "d \<in> process_hosts_file content \<longleftrightarrow> (\<exists>raw \<in> set (splitlines content). d \<in> process_line {} raw)"
  by (simp add: process_hosts_file_def foldl_process_line)

lemma process_line_entry: "d \<in> process_line {} raw \<longleftrightarrow> entry_of_line raw d"
  by (auto simp: process_line_def entry_of_line_def Let_def)

lemma entry_of_line_chars:
  assumes "entry_of_line raw d"
  shows "d \<noteq> [] \<and> set d \<subseteq> set raw"
proof -
  let ?line = "strip raw"
  from assms have ne: "?line \<noteq> []" by (simp add: entry_of_line_def Let_def)
  from assms consider "d = ?line" | "2 \<le> length (split ?line)" "d = split ?line ! 1"
    by (auto simp: entry_of_line_def Let_def split: if_splits)
  then show ?thesis
  proof cases
    case 1
    with ne strip_subset [of raw] show ?thesis by simp
  next
    case 2
    then have "d \<in> set (split ?line)" by simp
    from split_tokens [OF this] strip_subset [of raw] show ?thesis by blast
  qed
qed

lemma finite_process_hosts_file: "finite (process_hosts_file content)"
proof -
  have "finite (process_line {} raw)" for raw
    by (simp add: process_line_def Let_def)
  then show ?thesis by (simp add: process_hosts_file_def foldl_process_line)
qed

lemma process_hosts_file_lines:
  assumes "d \<in> process_hosts_file content"
  shows "d \<noteq> [] \<and> newline \<notin> set d \<and> (\<exists>raw \<in> set (splitlines content). entry_of_line raw d)"
proof -
  from assms obtain raw where raw: "raw \<in> set (splitlines content)" "entry_of_line raw d"
    by (auto simp: process_hosts_file_mem process_line_entry)
  from entry_of_line_chars [OF raw(2)] have d: "d \<noteq> []" "set d \<subseteq> set raw" by simp_all
  have "newline \<notin> set d"
  proof
    assume "newline \<in> set d"
    with d(2) have "newline \<in> set raw" by blast
    from splitlines_no_linebreak [OF raw(1) this] is_linebreak_newline show False by simp
  qed
  with d raw show ?thesis by blast
qed

lemma download_category_failed:
  assumes "try_urls self orc urls w = ((False, ds), w1)"
  shows "download_category self orc category urls w = (False, w1)"
  using assms by (simp add: download_category_def)

lemma retry_loop_returned:
  "retry_loop orc url retries atts w = (Returned (Some content), w') \<Longrightarrow>
   net orc (requests_made w' - 1) url = Ok content"
proof (induction atts arbitrary: w)
  case Nil
  then show ?case by simp
next
  case (Cons a atts)
  show ?case
  proof (cases "net orc (requests_made w) url")
    case (Ok body)
    with Cons.prems show ?thesis by (auto simp: requests_made_def log_event_def)
  next
    case (OtherException e)
    with Cons.prems show ?thesis by auto
  next
    case (RequestException e)
    show ?thesis
    proof (cases "int a < retries - 1")
      case False
      with RequestException Cons.prems show ?thesis by auto
    next
      case True
      with RequestException Cons.prems
      have "retry_loop orc url retries atts
              (log_event (Sleep (2 ^ a)) (log_event (Get url) w)) = (Returned (Some content), w')"
        by simp
      from Cons.IH [OF this] show ?thesis .
    qed
  qed
qed

lemma download_with_retry_returned:
  "download_with_retry self orc url r w = (Returned (Some content), w') \<Longrightarrow>
   net orc (requests_made w' - 1) url = Ok content"
  unfolding download_with_retry_def Let_def by (rule retry_loop_returned)

lemma write_loop_render: "write_loop ds buf = buf @ render_lines ds"
  by (induction ds arbitrary: buf) (simp_all add: render_lines_def)

lemma download_category_written:
  assumes t: "try_urls self orc urls w = ((True, ds), w1)"
  shows "fst (download_category self orc category urls w)
           = (disk orc (output_file self category) = NoFault)
       \<and> files (snd (download_category self orc category urls w))
           = (case disk orc (output_file self category) of
                OpenFault \<Rightarrow> files w
              | WriteFault n \<Rightarrow>
                  (files w)(output_file self category \<mapsto>
                     take n (render_lines (sorted_list_of_set ds)))
              | NoFault \<Rightarrow>
                  (files w)(output_file self category \<mapsto>
                     render_lines (sorted_list_of_set ds)))
       \<and> trace (snd (download_category self orc category urls w)) = trace w1
       \<and> meta_files (snd (download_category self orc category urls w)) = meta_files w"
proof -
  from try_urls_frame [OF t] have f: "files w1 = files w" "meta_files w1 = meta_files w"
    by simp_all
  show ?thesis
    by (cases "disk orc (output_file self category)")
       (simp_all add: download_category_def t Let_def write_loop_render f)
qed

text \<open>
  C6: \<open>download_category\<close> adopts exactly the normalized domain set of the first URL
  whose download succeeds. When every URL of \<open>pre\<close> has failed and \<open>url\<close> then gives
  \<open>content\<close>, the loop ends with the set \<open>process_hosts_file content\<close>, not a union
  with any other source, and with the world as it was right after that download,
  whatever URLs follow; the requests made are for URLs of \<open>pre\<close> and for \<open>url\<close>
  only; when the file can be written it holds that set. With an empty URL list the
  update returns false.
\<close>

theorem download_category_first_success:
  "download_category self orc category [] w = (False, w)
   \<and> (try_urls self orc pre w = ((False, ds0), w1) \<longrightarrow>
      download_with_retry self orc url None w1 = (Returned (Some content), w2) \<longrightarrow>
        try_urls self orc (pre @ url # post) w = ((True, process_hosts_file content), w2)
        \<and> (\<exists>evs. trace w2 = trace w @ evs \<and> (\<forall>u. Get u \<in> set evs \<longrightarrow> u \<in> set (pre @ [url])))
        \<and> trace (snd (download_category self orc category (pre @ url # post) w)) = trace w2
        \<and> (disk orc (output_file self category) = NoFault \<longrightarrow>
             fst (download_category self orc category (pre @ url # post) w) = True
             \<and> files (snd (download_category self orc category (pre @ url # post) w))
                  (output_file self category)
                = Some (render_lines (sorted_list_of_set (process_hosts_file content)))))"
proof (intro conjI impI)
  show "download_category self orc category [] w = (False, w)"
    by (simp add: download_category_def)
next
  assume pre: "try_urls self orc pre w = ((False, ds0), w1)"
    and ok: "download_with_retry self orc url None w1 = (Returned (Some content), w2)"
  have one: "try_urls self orc (url # post) w1 = ((True, process_hosts_file content), w2)"
    using ok by simp
  show t: "try_urls self orc (pre @ url # post) w = ((True, process_hosts_file content), w2)"
    using try_urls_skip_failed [OF pre, of "url # post"] one by simp
  have "try_urls self orc (pre @ [url]) w = ((True, process_hosts_file content), w2)"
    using try_urls_skip_failed [OF pre, of "[url]"] ok by simp
  from try_urls_frame [OF this]
  show "\<exists>evs. trace w2 = trace w @ evs \<and> (\<forall>u. Get u \<in> set evs \<longrightarrow> u \<in> set (pre @ [url]))"
    by blast
  note wr = download_category_written [OF t, of category]
  show "trace (snd (download_category self orc category (pre @ url # post) w)) = trace w2"
    using wr by blast
  {
    assume nf: "disk orc (output_file self category) = NoFault"
    show "fst (download_category self orc category (pre @ url # post) w) = True"
      using wr nf by simp
    show "files (snd (download_category self orc category (pre @ url # post) w))
                  (output_file self category)
                = Some (render_lines (sorted_list_of_set (process_hosts_file content)))"
      using wr nf by simp
  }
qed

theorem download_category_first_success_witness:
  "fst (download_category example_updater fallback_env ''ads'' [''u1'', ''u2'', ''u3''] empty_world) = True
   \<and> files (snd (download_category example_updater fallback_env ''ads'' [''u1'', ''u2'', ''u3''] empty_world))
        ''domains/ads_domains.txt''
      = Some (''A.example'' @ [newline] @ ''b.example'' @ [newline])
   \<and> filter is_get (trace (snd (download_category example_updater fallback_env ''ads''
        [''u1'', ''u2'', ''u3''] empty_world)))
      = [Get ''u1'', Get ''u1'', Get ''u1'', Get ''u2'']"
proof -
  let ?t = "try_urls example_updater fallback_env [''u1''] empty_world"
  let ?d = "download_with_retry example_updater fallback_env ''u2'' None (snd ?t)"
  let ?c = "''0.0.0.0 b.example'' @ [newline] @ ''# comment'' @ [newline] @ ''A.example''"
  have "fst (fst ?t) = False" by code_simp
  then have h1: "?t = ((False, snd (fst ?t)), snd ?t)" by (metis prod.collapse)
  have "fst ?d = Returned (Some ?c)" by code_simp
  then have h2: "?d = (Returned (Some ?c), snd ?d)" by (metis prod.collapse)
  have nf: "disk fallback_env (output_file example_updater ''ads'') = NoFault"
    by (simp add: fallback_env_def)
  have p: "output_file example_updater ''ads'' = ''domains/ads_domains.txt''"
    by (simp add: output_file_def example_updater_def)
  have r: "render_lines (sorted_list_of_set (process_hosts_file ?c))
           = ''A.example'' @ [newline] @ ''b.example'' @ [newline]"
    by code_simp
  have g: "filter is_get (trace (snd ?d)) = [Get ''u1'', Get ''u1'', Get ''u1'', Get ''u2'']"
    by code_simp
  note X = download_category_first_success
         [of example_updater fallback_env "''ads''" empty_world "[''u1'']" "snd (fst ?t)" "snd ?t"
             "''u2''" ?c "snd ?d" "[''u3'']", THEN conjunct2, rule_format, OF h1 h2]
  let ?dc = "download_category example_updater fallback_env ''ads''
               ([''u1''] @ ''u2'' # [''u3'']) empty_world"
  have x3: "trace (snd ?dc) = trace (snd ?d)" using X by blast
  have x4: "fst ?dc = True \<and> files (snd ?dc) (output_file example_updater ''ads'')
              = Some (render_lines (sorted_list_of_set (process_hosts_file ?c)))"
    using X nf by blast
  have e: "[''u1''] @ ''u2'' # [''u3''] = [''u1'', ''u2'', ''u3'']" by simp
  from x3 x4 g r show ?thesis unfolding e p by simp
qed




lemma process_hosts_file_iff:
  "d \<in> process_hosts_file content \<longleftrightarrow> (\<exists>raw \<in> set (splitlines content). entry_of_line raw d)"
  by (simp add: process_hosts_file_mem process_line_entry)

lemma entry_of_line_hash:
  assumes "entry_of_line raw d" and "startswith d ''#''"
  shows "2 \<le> length (split (strip raw))
       \<and> split (strip raw) ! 0 \<in> {''0.0.0.0'', ''127.0.0.1''}
       \<and> d = split (strip raw) ! 1"
proof (rule ccontr)
  assume n: "\<not> ?thesis"
  from assms(1) have "\<not> startswith (strip raw) ''#''" by (simp add: entry_of_line_def Let_def)
  moreover from assms(1) n have "d = strip raw"
    by (auto simp: entry_of_line_def Let_def split: if_splits)
  ultimately show False using assms(2) by simp
qed

text \<open>
  C8, as the code has it: after a successful update the category file is exactly the
  normalized domain set of the text that the adopted URL returned, written sorted and
  without duplicates, one entry to a line, each line ended by a line feed. A line is in
  the file exactly when some line of that text contributes it, in the letter case it has
  there: nothing is lowercased. Every line of the file is non-empty and holds no line
  feed. Blank lines of the text and lines that start with \<open>#\<close> contribute nothing, so
  a line of the file starts with \<open>#\<close> only as the second token of a blocklist-style
  line.
\<close>

theorem category_file_content:
  assumes "try_urls self orc pre w = ((False, ds0), w1)"
    and "download_with_retry self orc url None w1 = (Returned (Some content), w2)"
    and "download_category self orc category (pre @ url # post) w = (True, w')"
  shows "net orc (requests_made w2 - 1) url = Ok content
       \<and> files w' (output_file self category)
           = Some (render_lines (sorted_list_of_set (process_hosts_file content)))
       \<and> sorted (sorted_list_of_set (process_hosts_file content))
       \<and> distinct (sorted_list_of_set (process_hosts_file content))
       \<and> (\<forall>d. d \<in> set (sorted_list_of_set (process_hosts_file content))
              \<longleftrightarrow> (\<exists>raw \<in> set (splitlines content). entry_of_line raw d))
       \<and> (\<forall>d \<in> set (sorted_list_of_set (process_hosts_file content)).
              d \<noteq> [] \<and> newline \<notin> set d
              \<and> (startswith d ''#'' \<longrightarrow>
                    (\<exists>raw \<in> set (splitlines content).
                        2 \<le> length (split (strip raw))
                        \<and> split (strip raw) ! 0 \<in> {''0.0.0.0'', ''127.0.0.1''}
                        \<and> d = split (strip raw) ! 1)))"
proof -
  let ?L = "sorted_list_of_set (process_hosts_file content)"
  have fin: "finite (process_hosts_file content)" by (rule finite_process_hosts_file)
  have set: "set ?L = process_hosts_file content" using fin by simp
  have net: "net orc (requests_made w2 - 1) url = Ok content"
    using assms(2) by (rule download_with_retry_returned)
  have t: "try_urls self orc (pre @ url # post) w = ((True, process_hosts_file content), w2)"
    using try_urls_skip_failed [OF assms(1), of "url # post"] assms(2) by simp
  note wr = download_category_written [OF t, of category]
  from wr assms(3) have nf: "disk orc (output_file self category) = NoFault" by simp
  from wr assms(3) nf have fc: "files w' (output_file self category) = Some (render_lines ?L)"
    by simp
  have mem: "\<forall>d. d \<in> set ?L \<longleftrightarrow> (\<exists>raw \<in> set (splitlines content). entry_of_line raw d)"
    unfolding set by (simp add: process_hosts_file_iff)
  have each: "d \<noteq> [] \<and> newline \<notin> set d
              \<and> (startswith d ''#'' \<longrightarrow>
                    (\<exists>raw \<in> set (splitlines content).
                        2 \<le> length (split (strip raw))
                        \<and> split (strip raw) ! 0 \<in> {''0.0.0.0'', ''127.0.0.1''}
                        \<and> d = split (strip raw) ! 1))" if "d \<in> set ?L" for d
  proof -
    from that have d: "d \<in> process_hosts_file content" unfolding set .
    from process_hosts_file_lines [OF d] have a: "d \<noteq> []" "newline \<notin> set d" by simp_all
    from d obtain raw where raw: "raw \<in> set (splitlines content)" "entry_of_line raw d"
      by (auto simp: process_hosts_file_iff)
    have "startswith d ''#'' \<longrightarrow>
                    (\<exists>raw \<in> set (splitlines content).
                        2 \<le> length (split (strip raw))
                        \<and> split (strip raw) ! 0 \<in> {''0.0.0.0'', ''127.0.0.1''}
                        \<and> d = split (strip raw) ! 1)"
      using entry_of_line_hash [OF raw(2)] raw(1) by blast
    with a show ?thesis by blast
  qed
  have sd: "sorted ?L" "distinct ?L" by simp_all
  from net fc sd mem each show ?thesis by blast
qed

theorem category_file_content_witness:
  "net mixed_env 0 ''u'' = Ok (''0.0.0.0 #tracker'' @ [newline] @ ''# note'' @ [newline]
                               @ ''Ads.Example.COM'')
   \<and> files (snd (download_category example_updater mixed_env ''ads'' [''u''] empty_world))
        ''domains/ads_domains.txt''
      = Some (''#tracker'' @ [newline] @ ''Ads.Example.COM'' @ [newline])"
proof -
  let ?c = "''0.0.0.0 #tracker'' @ [newline] @ ''# note'' @ [newline] @ ''Ads.Example.COM''"
  let ?d = "download_with_retry example_updater mixed_env ''u'' None empty_world"
  let ?dc = "download_category example_updater mixed_env ''ads'' ([] @ ''u'' # []) empty_world"
  have h1: "try_urls example_updater mixed_env [] empty_world = ((False, {}), empty_world)"
    by simp
  have "fst ?d = Returned (Some ?c)" by code_simp
  then have h2: "?d = (Returned (Some ?c), snd ?d)" by (metis prod.collapse)
  have "fst ?dc = True" by code_simp
  then have h3: "?dc = (True, snd ?dc)" by (metis prod.collapse)
  have p: "output_file example_updater ''ads'' = ''domains/ads_domains.txt''"
    by (simp add: output_file_def example_updater_def)
  have r: "render_lines (sorted_list_of_set (process_hosts_file ?c))
           = ''#tracker'' @ [newline] @ ''Ads.Example.COM'' @ [newline]"
    by code_simp
  have q: "requests_made (snd ?d) - 1 = 0" by code_simp
  note T = category_file_content [OF h1 h2 h3]
  have t1: "net mixed_env (requests_made (snd ?d) - 1) ''u'' = Ok ?c"
    using T by (rule conjunct1)
  have t2: "files (snd ?dc) (output_file example_updater ''ads'')
              = Some (render_lines (sorted_list_of_set (process_hosts_file ?c)))"
    using T by blast
  have e: "[] @ ''u'' # [] = [''u'']" by simp
  from t1 t2 show ?thesis unfolding q p r e by simp
qed

text \<open>
  The claim C8 as stated fails twice: the entry \<open>Ads.Example.COM\<close> is written to the
  file as it is, not in lowercase, and the blocklist-style line \<open>0.0.0.0 #tracker\<close>
  puts the line \<open>#tracker\<close>, a comment line to the loader, into the file.
\<close>

theorem category_file_keeps_case_counterexample:
  "fst (download_category example_updater mixed_env ''ads'' [''u''] empty_world) = True
   \<and> files (snd (download_category example_updater mixed_env ''ads'' [''u''] empty_world))
        ''domains/ads_domains.txt''
      = Some (''#tracker'' @ [newline] @ ''Ads.Example.COM'' @ [newline])
   \<and> lower ''Ads.Example.COM'' \<noteq> ''Ads.Example.COM''
   \<and> startswith ''#tracker'' ''#''"
  by code_simp

section \<open>Properties of update\_all\_lists\<close>

lemma sum_values_count: "sum_values res = int (length (filter snd res))"
  by (induction res) (auto simp: sum_values_def)

lemma update_loop_append:
  "update_loop self orc (xs @ ys) res w =
     update_loop self orc ys (fst (update_loop self orc xs res w))
       (snd (update_loop self orc xs res w))"
  by (induction xs arbitrary: res w) (auto split: prod.splits)

lemma update_loop_world:
  "snd (update_loop self orc xs res w) = snd (update_loop self orc xs res' w)"
  by (induction xs arbitrary: res res' w) (auto split: prod.splits)

lemma update_loop_keys:
  "distinct (map fst xs) \<Longrightarrow> set (map fst xs) \<inter> set (map fst res) = {} \<Longrightarrow>
   map fst (fst (update_loop self orc xs res w)) = map fst res @ map fst xs"
proof (induction xs arbitrary: res w)
  case Nil
  show ?case by simp
next
  case (Cons x xs)
  obtain c urls where x: "x = (c, urls)" by (cases x)
  obtain ok w1 where d: "download_category self orc c urls w = (ok, w1)"
    by (cases "download_category self orc c urls w")
  have notin: "c \<notin> fst ` set res" using Cons.prems(2) x by auto
  have keys: "map fst (AList.update c ok res) = map fst res @ [c]"
    using notin by (simp add: update_keys)
  have "set (map fst xs) \<inter> set (map fst (AList.update c ok res)) = {}"
    using Cons.prems x unfolding keys by auto
  with Cons.IH [of "AList.update c ok res" w1] Cons.prems(1)
  have "map fst (fst (update_loop self orc xs (AList.update c ok res) w1))
          = map fst (AList.update c ok res) @ map fst xs"
    by simp
  then show ?case using x d keys by simp
qed

lemma update_loop_other_key:
  "c \<notin> fst ` set xs \<Longrightarrow> map_of (fst (update_loop self orc xs res w)) c = map_of res c"
proof (induction xs arbitrary: res w)
  case Nil
  show ?case by simp
next
  case (Cons x xs)
  obtain c' urls where x: "x = (c', urls)" by (cases x)
  obtain ok w1 where d: "download_category self orc c' urls w = (ok, w1)"
    by (cases "download_category self orc c' urls w")
  from Cons.prems x have ne: "c' \<noteq> c" and rest: "c \<notin> fst ` set xs" by auto
  from Cons.IH [OF rest, of "AList.update c' ok res" w1] ne
  show ?case using x d by (simp add: update_conv')
qed

lemma update_loop_entry:
  assumes "distinct (map fst (pre @ (c, urls) # post))"
  shows "map_of (fst (update_loop self orc (pre @ (c, urls) # post) [] w)) c =
           Some (fst (download_category self orc c urls (snd (update_loop self orc pre [] w))))"
proof -
  let ?r1 = "fst (update_loop self orc pre [] w)"
  let ?w1 = "snd (update_loop self orc pre [] w)"
  obtain ok w2 where d: "download_category self orc c urls ?w1 = (ok, w2)"
    by (cases "download_category self orc c urls ?w1")
  have notin: "c \<notin> fst ` set post" using assms by auto
  have "update_loop self orc (pre @ (c, urls) # post) [] w
          = update_loop self orc post (AList.update c ok ?r1) w2"
    using d by (simp add: update_loop_append)
  then have "map_of (fst (update_loop self orc (pre @ (c, urls) # post) [] w)) c
          = map_of (AList.update c ok ?r1) c"
    using update_loop_other_key [OF notin] by simp
  also have "\<dots> = Some ok" by (simp add: update_conv')
  finally show ?thesis using d by simp
qed

lemma none_true_iff:
  assumes "distinct (map fst res)"
  shows "filter snd res = [] \<longleftrightarrow> (\<forall>c \<in> set (map fst res). map_of res c = Some False)"
proof
  assume e: "filter snd res = []"
  show "\<forall>c \<in> set (map fst res). map_of res c = Some False"
  proof
    fix c assume "c \<in> set (map fst res)"
    then obtain v where "(c, v) \<in> set res" by auto
    moreover from this e have "\<not> v" by (auto simp: filter_empty_conv)
    ultimately show "map_of res c = Some False" using assms by simp
  qed
next
  assume a: "\<forall>c \<in> set (map fst res). map_of res c = Some False"
  have "\<not> snd p" if "p \<in> set res" for p
  proof -
    obtain c v where p: "p = (c, v)" by (cases p)
    with that assms have "map_of res c = Some v" by simp
    moreover from that p a have "map_of res c = Some False" by force
    ultimately show ?thesis using p by simp
  qed
  then show "filter snd res = []" by (auto simp: filter_empty_conv)
qed

lemma download_category_meta:
  "meta_files (snd (download_category self orc category urls w)) = meta_files w"
proof -
  obtain ok ds w1 where t: "try_urls self orc urls w = ((ok, ds), w1)"
    by (metis prod.collapse)
  show ?thesis
  proof (cases ok)
    case False
    with t have "download_category self orc category urls w = (False, w1)"
      by (simp add: download_category_failed)
    with try_urls_frame [OF t] show ?thesis by simp
  next
    case True
    with t have "try_urls self orc urls w = ((True, ds), w1)" by simp
    from download_category_written [OF this] show ?thesis by blast
  qed
qed

lemma update_loop_meta:
  "meta_files (snd (update_loop self orc xs res w)) = meta_files w"
proof (induction xs arbitrary: res w)
  case Nil
  show ?case by simp
next
  case (Cons x xs)
  obtain c urls where x: "x = (c, urls)" by (cases x)
  obtain ok w1 where d: "download_category self orc c urls w = (ok, w1)"
    by (cases "download_category self orc c urls w")
  from download_category_meta [of self orc c urls w] d have "meta_files w1 = meta_files w"
    by simp
  with Cons.IH [of "AList.update c ok res" w1] show ?case using x d by simp
qed

text \<open>
  C4, as the code has it: in every run in which creating the directory and writing
  the metadata file do not raise, \<open>update_all_lists\<close> returns false exactly when no
  category succeeded and true otherwise, and it stores a metadata record with the time
  of the run, the map from category to success, the number of categories and the
  number of successful updates, which is 0 when the run returns false. The map has one
  entry for each configured category, the value that \<open>download_category\<close> returned
  for it. The configured sources are a dict, so their keys are distinct. Neither step
  is guarded: when \<open>mkdir\<close> raises, or the metadata file cannot be opened, the
  exception leaves \<open>update_all_lists\<close>, which then returns no value and stores no
  record; when the write of the metadata fails later, the exception leaves it as well
  and the file holds a record that is cut off.
\<close>

theorem update_all_lists_result:
  "(distinct (map fst category_sources) \<and> mkdir_ok orc (domains_path self)
      \<and> disk orc (metadata_file self) = NoFault \<longrightarrow>
        (fst (update_all_lists self orc category_sources w) = Returns False
            \<longleftrightarrow> (\<forall>c \<in> set (map fst category_sources).
                   map_of (fst (update_loop self orc category_sources [] w)) c = Some False))
      \<and> (fst (update_all_lists self orc category_sources w) = Returns True
            \<longleftrightarrow> (\<exists>c \<in> set (map fst category_sources).
                   map_of (fst (update_loop self orc category_sources [] w)) c = Some True))
      \<and> meta_files (snd (update_all_lists self orc category_sources w)) (metadata_file self)
           = Some (Dumped
               \<lparr> last_update = now_iso orc,
                 results = fst (update_loop self orc category_sources [] w),
                 total_categories = int (length category_sources),
                 successful_updates =
                   int (length (filter snd (fst (update_loop self orc category_sources [] w)))) \<rparr>)
      \<and> map fst (fst (update_loop self orc category_sources [] w)) = map fst category_sources
      \<and> (\<forall>pre c urls post. category_sources = pre @ (c, urls) # post \<longrightarrow>
             map_of (fst (update_loop self orc category_sources [] w)) c
               = Some (fst (download_category self orc c urls
                              (snd (update_loop self orc pre [] w)))))
      \<and> (fst (update_all_lists self orc category_sources w) = Returns False \<longrightarrow>
             length (filter snd (fst (update_loop self orc category_sources [] w))) = 0))
   \<and> (\<not> mkdir_ok orc (domains_path self) \<longrightarrow>
        update_all_lists self orc category_sources w = (Raises ''OSError'', w))
   \<and> (mkdir_ok orc (domains_path self) \<and> disk orc (metadata_file self) = OpenFault \<longrightarrow>
        fst (update_all_lists self orc category_sources w) = Raises ''OSError''
        \<and> meta_files (snd (update_all_lists self orc category_sources w)) = meta_files w)
   \<and> (mkdir_ok orc (domains_path self) \<and> disk orc (metadata_file self) = WriteFault n \<longrightarrow>
        fst (update_all_lists self orc category_sources w) = Raises ''OSError''
        \<and> (\<exists>md. meta_files (snd (update_all_lists self orc category_sources w))
                   (metadata_file self) = Some (Cut md n)))"
proof -
  let ?res = "fst (update_loop self orc category_sources [] w)"
  let ?w1 = "snd (update_loop self orc category_sources [] w)"
  let ?r = "update_all_lists self orc category_sources w"
  have ul: "update_loop self orc category_sources [] w = (?res, ?w1)" by simp
  have m1: "meta_files ?w1 = meta_files w" by (rule update_loop_meta)
  have good: "(fst ?r = Returns False
            \<longleftrightarrow> (\<forall>c \<in> set (map fst category_sources). map_of ?res c = Some False))
      \<and> (fst ?r = Returns True
            \<longleftrightarrow> (\<exists>c \<in> set (map fst category_sources). map_of ?res c = Some True))
      \<and> meta_files (snd ?r) (metadata_file self)
           = Some (Dumped
               \<lparr> last_update = now_iso orc, results = ?res,
                 total_categories = int (length category_sources),
                 successful_updates = int (length (filter snd ?res)) \<rparr>)
      \<and> map fst ?res = map fst category_sources
      \<and> (\<forall>pre c urls post. category_sources = pre @ (c, urls) # post \<longrightarrow>
             map_of ?res c = Some (fst (download_category self orc c urls
                              (snd (update_loop self orc pre [] w)))))
      \<and> (fst ?r = Returns False \<longrightarrow> length (filter snd ?res) = 0)"
    if d: "distinct (map fst category_sources)" and mk: "mkdir_ok orc (domains_path self)"
      and nf: "disk orc (metadata_file self) = NoFault"
  proof -
    have keys: "map fst ?res = map fst category_sources"
      using update_loop_keys [OF d, of "[]" self orc w] by simp
    then have dres: "distinct (map fst ?res)" using d by simp
    have ret: "fst ?r = Returns (filter snd ?res \<noteq> [])"
      using mk nf
      by (simp add: update_all_lists_def Let_def sum_values_count split: prod.splits)
    have meta: "meta_files (snd ?r) (metadata_file self)
           = Some (Dumped
               \<lparr> last_update = now_iso orc, results = ?res,
                 total_categories = int (length category_sources),
                 successful_updates = int (length (filter snd ?res)) \<rparr>)"
      using mk nf
      by (simp add: update_all_lists_def Let_def sum_values_count split: prod.splits)
    have iff: "filter snd ?res = [] \<longleftrightarrow>
             (\<forall>c \<in> set (map fst category_sources). map_of ?res c = Some False)"
      using none_true_iff [OF dres] unfolding keys .
    have some: "filter snd ?res \<noteq> [] \<longleftrightarrow>
             (\<exists>c \<in> set (map fst category_sources). map_of ?res c = Some True)"
    proof -
      have nn: "map_of ?res c \<noteq> None" if "c \<in> set (map fst category_sources)" for c
      proof -
        from that keys have "c \<in> fst ` set ?res" by (metis set_map)
        then show ?thesis by (simp add: map_of_eq_None_iff)
      qed
      have tf: "map_of ?res c = Some True \<or> map_of ?res c = Some False"
        if "c \<in> set (map fst category_sources)" for c
        using nn [OF that] by (cases "map_of ?res c") auto
      from iff tf show ?thesis by (metis option.inject)
    qed
    have entry: "\<forall>pre c urls post. category_sources = pre @ (c, urls) # post \<longrightarrow>
             map_of ?res c = Some (fst (download_category self orc c urls
                                          (snd (update_loop self orc pre [] w))))"
      using update_loop_entry d by metis
    have c1: "fst ?r = Returns False
            \<longleftrightarrow> (\<forall>c \<in> set (map fst category_sources). map_of ?res c = Some False)"
      unfolding ret iff [symmetric] by simp
    have c2: "fst ?r = Returns True
            \<longleftrightarrow> (\<exists>c \<in> set (map fst category_sources). map_of ?res c = Some True)"
      unfolding ret some [symmetric] by simp
    have c6: "fst ?r = Returns False \<longrightarrow> length (filter snd ?res) = 0"
      unfolding ret by simp
    from c1 c2 meta keys entry c6 show ?thesis by blast
  qed
  have nomk: "?r = (Raises ''OSError'', w)" if "\<not> mkdir_ok orc (domains_path self)"
    using that by (simp add: update_all_lists_def)
  have op: "fst ?r = Raises ''OSError'' \<and> meta_files (snd ?r) = meta_files w"
    if "mkdir_ok orc (domains_path self)" "disk orc (metadata_file self) = OpenFault"
    using that m1 by (auto simp add: update_all_lists_def Let_def split: prod.splits)
  have wf: "fst ?r = Raises ''OSError''
        \<and> (\<exists>md. meta_files (snd ?r) (metadata_file self) = Some (Cut md n))"
    if "mkdir_ok orc (domains_path self)" "disk orc (metadata_file self) = WriteFault n"
    using that by (simp add: update_all_lists_def Let_def split: prod.splits)
  from good nomk op wf show ?thesis by blast
qed

theorem update_all_lists_result_witness:
  "fst (update_all_lists example_updater down_env example_sources empty_world) = Returns False
   \<and> meta_files (snd (update_all_lists example_updater down_env example_sources empty_world))
        ''domains/update_metadata.json''
       = Some (Dumped \<lparr> last_update = ''2024-05-01T03:00:00'',
                results = [(''social'', False), (''ads'', False)],
                total_categories = 2, successful_updates = 0 \<rparr>)
   \<and> fst (update_all_lists example_updater fallback_env example_sources empty_world) = Returns True
   \<and> meta_files (snd (update_all_lists example_updater fallback_env example_sources empty_world))
        ''domains/update_metadata.json''
       = Some (Dumped \<lparr> last_update = ''2024-05-01T03:00:00'',
                results = [(''social'', False), (''ads'', True)],
                total_categories = 2, successful_updates = 1 \<rparr>)"
proof -
  have d: "distinct (map fst example_sources)" by (simp add: example_sources_def)
  have k: "map fst example_sources = [''social'', ''ads'']" "length example_sources = 2"
    by (simp_all add: example_sources_def)
  have m: "metadata_file example_updater = ''domains/update_metadata.json''"
    by (simp add: metadata_file_def example_updater_def)
  have n: "now_iso down_env = ''2024-05-01T03:00:00''" "now_iso fallback_env = ''2024-05-01T03:00:00''"
    by (simp_all add: down_env_def fallback_env_def)
  have e1: "mkdir_ok down_env (domains_path example_updater)"
           "disk down_env (metadata_file example_updater) = NoFault"
    by (simp_all add: down_env_def)
  have e2: "mkdir_ok fallback_env (domains_path example_updater)"
           "disk fallback_env (metadata_file example_updater) = NoFault"
    by (simp_all add: fallback_env_def)
  have r1: "fst (update_loop example_updater down_env example_sources [] empty_world)
              = [(''social'', False), (''ads'', False)]"
    by code_simp
  have r2: "fst (update_loop example_updater fallback_env example_sources [] empty_world)
              = [(''social'', False), (''ads'', True)]"
    by code_simp
  note A = update_all_lists_result
             [of example_sources down_env example_updater empty_world,
              THEN conjunct1, rule_format, OF conjI [OF d conjI [OF e1]]]
  note B = update_all_lists_result
             [of example_sources fallback_env example_updater empty_world,
              THEN conjunct1, rule_format, OF conjI [OF d conjI [OF e2]]]
  have a1: "fst (update_all_lists example_updater down_env example_sources empty_world) = Returns False"
    using A [THEN conjunct1] unfolding r1 k by simp
  have a2: "meta_files (snd (update_all_lists example_updater down_env example_sources empty_world))
        ''domains/update_metadata.json''
       = Some (Dumped \<lparr> last_update = ''2024-05-01T03:00:00'',
                results = [(''social'', False), (''ads'', False)],
                total_categories = 2, successful_updates = 0 \<rparr>)"
    using A [THEN conjunct2, THEN conjunct2, THEN conjunct1] unfolding r1 k m n by simp
  have b1: "fst (update_all_lists example_updater fallback_env example_sources empty_world) = Returns True"
    using B [THEN conjunct2, THEN conjunct1] unfolding r2 k by simp
  have b2: "meta_files (snd (update_all_lists example_updater fallback_env example_sources empty_world))
        ''domains/update_metadata.json''
       = Some (Dumped \<lparr> last_update = ''2024-05-01T03:00:00'',
                results = [(''social'', False), (''ads'', True)],
                total_categories = 2, successful_updates = 1 \<rparr>)"
    using B [THEN conjunct2, THEN conjunct2, THEN conjunct1] unfolding r2 k m n by simp
  from a1 a2 b1 b2 show ?thesis by blast
qed

text \<open>
  The claim C4 as stated, that every run stores a metadata record and returns true or
  false, fails: on a disk where no file can be opened for writing every category fails,
  the metadata file cannot be opened either, and the run ends with the exception and
  without a record.
\<close>

theorem unwritable_metadata_counterexample:
  "fst (update_all_lists example_updater readonly_env example_sources empty_world)
     = Raises ''OSError''
   \<and> fst (update_loop example_updater readonly_env example_sources [] empty_world)
     = [(''social'', False), (''ads'', False)]
   \<and> meta_files (snd (update_all_lists example_updater readonly_env example_sources empty_world))
        ''domains/update_metadata.json'' = None"
  by code_simp

end
